theory Spec2Isabelle
  imports Main "HOL-Library.Word" "HOL-Library.Sublist" "HOL-Library.Product_Lexorder"
begin

section \<open>The record types of the wallet (hdwallettypes.h)\<close>

text \<open>
  \<^verbatim>\<open>uint256\<close> is an opaque 32-byte value: the code tests it for null and for equality and
  orders it with \<^verbatim>\<open>base_blob::Compare\<close> (a \<^verbatim>\<open>memcmp\<close>). It is modelled as a 256-bit word,
  null being 0. \<^verbatim>\<open>CAmount\<close> is \<^verbatim>\<open>int64_t\<close>: a 64-bit word, added with wrap-around and
  compared as a signed value (\<open><s\<close>, \<open>sint\<close>).
\<close>

type_synonym uint256 = "256 word"
type_synonym CAmount = "64 word"
type_synonym bytes = "8 word list"

text \<open>
  \<^verbatim>\<open>COutPoint\<close>: a transaction id and an output index (\<^verbatim>\<open>uint32_t n\<close>). A pair, so that the
  lexicographic order of the pair is \<^verbatim>\<open>operator<\<close> of \<^verbatim>\<open>COutPoint\<close>, by which a
  \<^verbatim>\<open>std::set<COutPoint>\<close> iterates.
\<close>

type_synonym COutPoint = "uint256 \<times> 32 word"

abbreviation op_hash :: "COutPoint \<Rightarrow> uint256" where
  "op_hash op \<equiv> fst op"

abbreviation op_n :: "COutPoint \<Rightarrow> 32 word" where
  "op_n op \<equiv> snd op"

text \<open>The output types the code compares \<^verbatim>\<open>nType\<close> with.\<close>

datatype OutputTypes = OUTPUT_NULL | OUTPUT_STANDARD | OUTPUT_CT | OUTPUT_RINGCT | OUTPUT_DATA

text \<open>
  \<^verbatim>\<open>enum OutputRecordFlags\<close>. \<^verbatim>\<open>COutputRecord::nFlags\<close> is a \<^verbatim>\<open>uint8_t\<close> and
  \<^verbatim>\<open>CTransactionRecord::nFlags\<close> an \<^verbatim>\<open>int16_t\<close>; a flag test \<^verbatim>\<open>nFlags & ORF_X\<close> is a bit test.
\<close>

definition ORF_OWNED :: nat where "ORF_OWNED = 0"
definition ORF_FROM :: nat where "ORF_FROM = 1"
definition ORF_CHANGE :: nat where "ORF_CHANGE = 2"
definition ORF_SPENT :: nat where "ORF_SPENT = 3"
definition ORF_LOCKED :: nat where "ORF_LOCKED = 4"
definition ORF_BLIND_IN :: nat where "ORF_BLIND_IN = 14"
definition ORF_ANON_IN :: nat where "ORF_ANON_IN = 15"

text \<open>
  \<^verbatim>\<open>class COutputRecord\<close>. The field \<^verbatim>\<open>n\<close> is named \<open>out_n\<close> and the \<^verbatim>\<open>nFlags\<close> of the
  transaction record \<open>nFlags_rtx\<close>: record fields are constants, and share one name space.
\<close>

record COutputRecord =
  nType :: OutputTypes
  nFlags :: "8 word"
  out_n :: "16 word"
  nValue :: CAmount
  scriptPubKey :: bytes
  sNarration :: string
  vPath :: bytes

text \<open>\<^verbatim>\<open>class CTransactionRecord\<close>. \<^verbatim>\<open>block_height\<close> is an \<^verbatim>\<open>int\<close> that is only compared.\<close>

record CTransactionRecord =
  blockHash :: uint256
  block_height :: int
  nFlags_rtx :: "16 word"
  nIndex :: "16 word"
  nBlockTime :: "64 word"
  nTimeReceived :: "64 word"
  nFee :: CAmount
  mapValue :: "(8 word \<times> bytes) list"
  vin :: "COutPoint list"
  vout :: "COutputRecord list"

text \<open>
  \<^verbatim>\<open>ABANDON_HASH\<close> is declared \<^verbatim>\<open>extern\<close> and defined elsewhere: the functions that read it
  take it as their first argument.
\<close>

definition IsAbandoned :: "uint256 \<Rightarrow> CTransactionRecord \<Rightarrow> bool" where
  "IsAbandoned ABANDON_HASH rtx = (blockHash rtx = ABANDON_HASH)"

definition isConflicted :: "CTransactionRecord \<Rightarrow> bool" where
  "isConflicted rtx = (nIndex rtx = - 1)"

definition HashUnset :: "uint256 \<Rightarrow> CTransactionRecord \<Rightarrow> bool" where
  "HashUnset ABANDON_HASH rtx = (blockHash rtx = 0 \<or> blockHash rtx = ABANDON_HASH)"

text \<open>\<^verbatim>\<open>std::min(a, b)\<close> on \<^verbatim>\<open>int64_t\<close>: \<^verbatim>\<open>b\<close> when \<^verbatim>\<open>b < a\<close>, else \<^verbatim>\<open>a\<close>.\<close>

definition std_min :: "64 word \<Rightarrow> 64 word \<Rightarrow> 64 word" where
  "std_min a b = (if b <s a then b else a)"

definition GetTxTime :: "uint256 \<Rightarrow> CTransactionRecord \<Rightarrow> 64 word" where
  "GetTxTime ABANDON_HASH rtx =
     (if HashUnset ABANDON_HASH rtx \<or> nIndex rtx <s 0 then nTimeReceived rtx
      else std_min (nTimeReceived rtx) (nBlockTime rtx))"

definition HaveChange :: "CTransactionRecord \<Rightarrow> bool" where
  "HaveChange rtx = list_ex (\<lambda>r. bit (nFlags r) ORF_CHANGE) (vout rtx)"

text \<open>\<^verbatim>\<open>TotalOutput\<close>: the loop adds every \<^verbatim>\<open>nValue\<close> to \<^verbatim>\<open>nTotal\<close>, which starts at 0.\<close>

definition TotalOutput :: "CTransactionRecord \<Rightarrow> CAmount" where
  "TotalOutput rtx = fold (\<lambda>r nTotal. nTotal + nValue r) (vout rtx) 0"

section \<open>Errors and messages\<close>

text \<open>
  A message built by \<^verbatim>\<open>strprintf\<close> is kept as its format string and its arguments. An RPC
  error is the code and the message \<^verbatim>\<open>JSONRPCError\<close> is thrown with; a function that can
  throw returns \<open>rpc_error + 'a\<close>, \<open>Inl\<close> being the error thrown.
\<close>

datatype fmt_arg = ArgInt int | ArgStr string | ArgHash uint256 | ArgOutPoint COutPoint | ArgBytes bytes

datatype message = strprintf string "fmt_arg list"

datatype RPCErrorCode =
  RPC_MISC_ERROR | RPC_TYPE_ERROR | RPC_INVALID_PARAMETER | RPC_INTERNAL_ERROR
  | RPC_WALLET_ERROR | RPC_WALLET_UNLOCK_NEEDED

datatype rpc_error = JSONRPCError RPCErrorCode message

text \<open>
  A hex string parameter of an RPC is modelled by the bytes its digits decode to
  (\<^verbatim>\<open>ParseHex\<close>), and by \<open>None\<close> when it is not hex (\<^verbatim>\<open>IsHex\<close> is false); the string has
  two characters for each byte. \<^verbatim>\<open>uint256::SetHex\<close> stores the bytes in the reverse order,
  and \<^verbatim>\<open>uint256::ToString\<close> prints them in the reverse order again.
\<close>

type_synonym hex_string = "bytes option"

definition SetHex :: "bytes \<Rightarrow> bytes" where
  "SetHex bs = rev bs"

definition ToString :: "bytes \<Rightarrow> bytes" where
  "ToString m = rev m"

section \<open>Blinding factors and commitments (rpchdwallet.cpp)\<close>

subsection \<open>The scalar primitive\<close>

text \<open>A blinding factor is 32 bytes, a big-endian scalar.\<close>

definition scalar_of_b32 :: "bytes \<Rightarrow> nat" where
  "scalar_of_b32 bs = foldl (\<lambda>a b. a * 256 + unat b) 0 bs"

fun b32_of_scalar :: "nat \<Rightarrow> nat \<Rightarrow> bytes" where
  "b32_of_scalar 0 k = []"
| "b32_of_scalar (Suc len) k = b32_of_scalar len (k div 256) @ [of_nat (k mod 256)]"

text \<open>
  Modelled from the spec: the order of the group of the curve secp256k1, by which the
  blinding factors are summed (``mod curve order''). It is not under src/.
\<close>

definition curve_order :: nat where
  "curve_order = 0xFFFFFFFFFFFFFFFFFFFFFFFFFFFFFFFEBAAEDCE6AF48A03BBFD25E8CD0364141"

text \<open>
  Modelled from the spec: \<^verbatim>\<open>secp256k1_pedersen_blind_sum\<close>, whose code is not under src/.
  The spec: the blinding factors are scalars of the group's scalar field, and the missing
  one is solved for by scalar subtraction in that field, so that the sum of the input
  blinds equals the sum of the output blinds modulo the curve order. The first
  \<open>npositive\<close> entries count positive and the others negative. The source tests the result
  of the call, so the model can fail: it does when an entry is not a scalar of the field
  (32 bytes whose value is not below the order).
\<close>

definition secp256k1_pedersen_blind_sum :: "bytes list \<Rightarrow> nat \<Rightarrow> bytes option" where
  "secp256k1_pedersen_blind_sum blinds npositive =
     (if list_ex (\<lambda>b. curve_order \<le> scalar_of_b32 b) blinds then None
      else Some (b32_of_scalar 32 (nat
        ((int (sum_list (map scalar_of_b32 (take npositive blinds)))
          - int (sum_list (map scalar_of_b32 (drop npositive blinds)))) mod int curve_order))))"

subsection \<open>generatematchingblindfactor\<close>

text \<open>
  The two loops that read the blinding factors: each entry must be hex and 64 characters
  long, is read with \<^verbatim>\<open>SetHex\<close> and copied into \<^verbatim>\<open>vBlinds\<close>, a pointer to the copy being
  pushed on \<^verbatim>\<open>vpBlinds\<close>. The function gives the blinds \<^verbatim>\<open>vpBlinds\<close> points to.
\<close>

fun read_blinds :: "hex_string list \<Rightarrow> rpc_error + bytes list" where
  "read_blinds [] = Inr []"
| "read_blinds (sBlind # rest) =
     (case sBlind of
        None \<Rightarrow> Inl (JSONRPCError RPC_INVALID_PARAMETER
                  (strprintf ''Blinding factor must be 32 bytes and hex encoded.'' []))
      | Some bs \<Rightarrow>
          if length bs \<noteq> 32
          then Inl (JSONRPCError RPC_INVALID_PARAMETER
                  (strprintf ''Blinding factor must be 32 bytes and hex encoded.'' []))
          else (case read_blinds rest of
                  Inl e \<Rightarrow> Inl e
                | Inr vpBlinds \<Rightarrow> Inr (SetHex bs # vpBlinds)))"

text \<open>
  The RPC: \<open>inputs\<close> and \<open>outputs\<close> are the two arrays of hex strings. The result is the
  value of the key \<^verbatim>\<open>blind\<close> of the object returned.
\<close>

definition generatematchingblindfactor :: "hex_string list \<Rightarrow> hex_string list \<Rightarrow> rpc_error + bytes" where
  "generatematchingblindfactor inputs outputs =
     (if length inputs < 1
      then Inl (JSONRPCError RPC_INVALID_PARAMETER
             (strprintf ''Inputs should contain at least one element.'' []))
      else if length outputs < 1
      then Inl (JSONRPCError RPC_INVALID_PARAMETER
             (strprintf ''Outputs should contain at least one element.'' []))
      else if length inputs < length outputs
      then Inl (JSONRPCError RPC_INVALID_PARAMETER
             (strprintf ''Outputs should be at least one element smaller than the inputs array.'' []))
      else (case read_blinds (inputs @ outputs) of
              Inl e \<Rightarrow> Inl e
            | Inr vpBlinds \<Rightarrow>
                (case secp256k1_pedersen_blind_sum vpBlinds (length inputs) of
                   None \<Rightarrow> Inl (JSONRPCError RPC_INTERNAL_ERROR
                             (strprintf ''secp256k1_pedersen_blind_sum failed'' []))
                 | Some final \<Rightarrow> Inr (ToString final))))"

text \<open>The scalar a hex string stands for, once read with \<^verbatim>\<open>SetHex\<close>.\<close>

definition blind_scalar :: "hex_string \<Rightarrow> nat" where
  "blind_scalar s = (case s of None \<Rightarrow> 0 | Some bs \<Rightarrow> scalar_of_b32 (SetHex bs))"

definition is_blind_scalar :: "hex_string \<Rightarrow> bool" where
  "is_blind_scalar s =
     (case s of None \<Rightarrow> False | Some bs \<Rightarrow> length bs = 32 \<and> scalar_of_b32 (SetHex bs) < curve_order)"

subsection \<open>verifycommitment\<close>

text \<open>
  \<^verbatim>\<open>secp256k1_pedersen_commit\<close> is not under src/: \<open>pedersen_commit blind v\<close> is the
  commitment it computes from the 32 bytes of the blinding factor and the amount, or
  \<open>None\<close> when it returns 0. The amount parameter is modelled by what \<^verbatim>\<open>AmountFromValue\<close>
  (not under src/ either) makes of it: the amount, or the error it throws. \<^verbatim>\<open>memcmp\<close> over
  33 bytes compares the first 33 bytes.
\<close>

definition verifycommitment ::
  "(bytes \<Rightarrow> CAmount \<Rightarrow> bytes option) \<Rightarrow> hex_string \<Rightarrow> hex_string \<Rightarrow> rpc_error + CAmount
    \<Rightarrow> rpc_error + bool" where
  "verifycommitment pedersen_commit p0 p1 p2 =
     (case p0 of
        None \<Rightarrow> Inl (JSONRPCError RPC_INVALID_PARAMETER
                  (strprintf ''Commitment must be 33 bytes and hex encoded.'' []))
      | Some vchCommitment \<Rightarrow>
     if length vchCommitment \<noteq> 33
     then Inl (JSONRPCError RPC_INVALID_PARAMETER
            (strprintf ''Commitment must be 33 bytes and hex encoded.'' []))
     else (case p1 of
        None \<Rightarrow> Inl (JSONRPCError RPC_INVALID_PARAMETER
                  (strprintf ''Blinding factor must be 32 bytes and hex encoded.'' []))
      | Some bs \<Rightarrow>
     if length bs \<noteq> 32
     then Inl (JSONRPCError RPC_INVALID_PARAMETER
            (strprintf ''Blinding factor must be 32 bytes and hex encoded.'' []))
     else (case p2 of
        Inl e \<Rightarrow> Inl e
      | Inr amount \<Rightarrow>
     (case pedersen_commit (SetHex bs) amount of
        None \<Rightarrow> Inl (JSONRPCError RPC_MISC_ERROR (strprintf ''secp256k1_pedersen_commit failed.'' []))
      | Some commitment \<Rightarrow>
     if take 33 vchCommitment \<noteq> take 33 commitment
     then Inl (JSONRPCError RPC_MISC_ERROR
            (strprintf ''Mismatched commitment, expected %s'' [ArgBytes (take 33 commitment)]))
     else Inr True))))"

subsection \<open>The range proof rewind of fundrawtransactionfrom\<close>

text \<open>
  What the rewind of one output leaves: the nonce set on the recipient, the blinding
  factor and the amount stored for the output, and the narration.
\<close>

record rewound_output =
  rw_nonce :: bytes
  rw_blind :: bytes
  rw_amount :: "64 word"
  rw_narration :: bytes

text \<open>
  The two rewind primitives are not under src/ and are arguments:
  \<open>bulletproof_rewind proof commitment nonce\<close> gives the amount and the blinding factor, and
  \<open>rangeproof_rewind nonce commitment proof\<close> the blinding factor, the amount and the
  message, or \<open>None\<close> when the call does not return 1; \<open>ExtractNarration\<close> (not under src/)
  gives the narration of the compact form. The narration of the legacy form is the message
  up to its first zero byte, the last byte of the message having been set to zero.
\<close>

definition rewind_bulletproof ::
  "(bytes \<Rightarrow> bytes \<Rightarrow> bytes \<Rightarrow> (64 word \<times> bytes) option) \<Rightarrow> (bytes \<Rightarrow> bytes)
    \<Rightarrow> int \<Rightarrow> bytes \<Rightarrow> bytes \<Rightarrow> bytes \<Rightarrow> rpc_error + rewound_output" where
  "rewind_bulletproof bulletproof_rewind ExtractNarration n_out proof commitment nonce =
     (case bulletproof_rewind proof commitment nonce of
        None \<Rightarrow> Inl (JSONRPCError RPC_MISC_ERROR
                  (strprintf ''secp256k1_bulletproof_rangeproof_rewind failed, output %d.'' [ArgInt n_out]))
      | Some (amountOut, blindOut) \<Rightarrow>
          Inr \<lparr>rw_nonce = nonce, rw_blind = blindOut, rw_amount = amountOut,
               rw_narration = ExtractNarration nonce\<rparr>)"

definition rewind_legacy ::
  "(bytes \<Rightarrow> bytes \<Rightarrow> bytes \<Rightarrow> (bytes \<times> 64 word \<times> bytes) option)
    \<Rightarrow> int \<Rightarrow> bytes \<Rightarrow> bytes \<Rightarrow> bytes \<Rightarrow> rpc_error + rewound_output" where
  "rewind_legacy rangeproof_rewind n_out proof commitment nonce =
     (case rangeproof_rewind nonce commitment proof of
        None \<Rightarrow> Inl (JSONRPCError RPC_MISC_ERROR
                  (strprintf ''secp256k1_rangeproof_rewind failed, output %d.'' [ArgInt n_out]))
      | Some (blindOut, amountOut, msg) \<Rightarrow>
          Inr \<lparr>rw_nonce = nonce, rw_blind = blindOut, rw_amount = amountOut,
               rw_narration = takeWhile (\<lambda>b. b \<noteq> 0) (butlast msg)\<rparr>)"

text \<open>
  The branch of the loop over the output keys: \<open>nonce\<close> is the value of the key
  \<^verbatim>\<open>nonce\<close> when it is a string, and \<open>rangeproof\<close> is \<^verbatim>\<open>txout->GetPRangeproof()\<close>, \<open>None\<close>
  when the pointer is null. The result is \<open>None\<close> when the output has nothing to rewind.
\<close>

definition fundrawtransactionfrom_rewind ::
  "(bytes \<Rightarrow> bytes \<Rightarrow> bytes \<Rightarrow> (64 word \<times> bytes) option) \<Rightarrow> (bytes \<Rightarrow> bytes)
    \<Rightarrow> (bytes \<Rightarrow> bytes \<Rightarrow> bytes \<Rightarrow> (bytes \<times> 64 word \<times> bytes) option)
    \<Rightarrow> int \<Rightarrow> hex_string option \<Rightarrow> bytes option \<Rightarrow> bytes
    \<Rightarrow> rpc_error + rewound_output option" where
  "fundrawtransactionfrom_rewind bulletproof_rewind ExtractNarration rangeproof_rewind
       n_out nonce rangeproof commitment =
     (case (nonce, rangeproof) of
        (Some s, Some proof) \<Rightarrow>
          (case s of
             None \<Rightarrow> Inl (JSONRPCError RPC_INVALID_PARAMETER
                       (strprintf ''Nonce must be 32 bytes and hex encoded.'' []))
           | Some bs \<Rightarrow>
               if length bs \<noteq> 32
               then Inl (JSONRPCError RPC_INVALID_PARAMETER
                       (strprintf ''Nonce must be 32 bytes and hex encoded.'' []))
               else map_sum id Some
                 (if length proof < 1000
                  then rewind_bulletproof bulletproof_rewind ExtractNarration n_out proof commitment (SetHex bs)
                  else rewind_legacy rangeproof_rewind n_out proof commitment (SetHex bs)))
      | (None, Some proof) \<Rightarrow>
          Inl (JSONRPCError RPC_INVALID_PARAMETER (strprintf ''Missing nonce for output %d.'' [ArgInt n_out]))
      | (_, None) \<Rightarrow> Inr None)"

section \<open>The wallets and the chain (rpchdwallet.cpp)\<close>

text \<open>
  \<^verbatim>\<open>CStoredTransaction\<close>: the transaction and the blinding factors of its outputs. Of the
  transaction the code reads \<^verbatim>\<open>vpout[n]\<close>: the type of the output (\<^verbatim>\<open>IsType\<close>) and, through
  the cast to \<^verbatim>\<open>CTxOutRingCT\<close>, its public key. The source indexes \<^verbatim>\<open>vpout\<close> unchecked; the
  model gives every index an output.
\<close>

type_synonym CCmpPubKey = bytes
type_synonym CKey = bytes

record CTxOutBase =
  txout_type :: OutputTypes
  txout_pk :: CCmpPubKey

record CStoredTransaction =
  tx_vpout :: "nat \<Rightarrow> CTxOutBase"
  vBlinds :: "(int \<times> uint256) list"

text \<open>
  Modelled from the spec: \<^verbatim>\<open>CStoredTransaction::GetBlind\<close>, declared in hdwallettypes.h and
  defined outside src/. The spec: the stored transaction holds an ordered list of (output
  index, 32-byte blinding factor) pairs, and the absence of the entry of an output is
  detectable. \<open>None\<close> is the result \<^verbatim>\<open>false\<close>.
\<close>

definition GetBlind :: "CStoredTransaction \<Rightarrow> int \<Rightarrow> uint256 option" where
  "GetBlind stx i = map_of (vBlinds stx) i"

text \<open>
  Modelled from the spec: \<^verbatim>\<open>CTransactionRecord::GetOutput\<close>, declared in hdwallettypes.h
  and defined outside src/. The spec: \<^verbatim>\<open>getOutput(n)\<close> returns the record of index \<^verbatim>\<open>n\<close> or
  NotFound. The argument is an \<^verbatim>\<open>int\<close> and the index of a record a \<^verbatim>\<open>uint16_t\<close>.
\<close>

definition GetOutput :: "CTransactionRecord \<Rightarrow> int \<Rightarrow> COutputRecord option" where
  "GetOutput rtx i = find (\<lambda>r. uint (out_n r) = i) (vout rtx)"

text \<open>
  A wallet, as the code reads it: its name, whether it is locked, its records in the order
  \<^verbatim>\<open>mapRecords\<close> iterates (by transaction id), and the calls into the wallet, its database and
  the chain, none of which is under src/: \<^verbatim>\<open>wdb.ReadStoredTx\<close>, \<^verbatim>\<open>IsSpent\<close>,
  \<^verbatim>\<open>chain().readRCTOutputLink\<close> and \<^verbatim>\<open>GetKey\<close> (by the public key whose id is looked up).
  \<open>None\<close> is the result \<^verbatim>\<open>false\<close> of a call.
\<close>

record CHDWallet =
  GetDisplayName :: string
  IsLocked :: bool
  fUnlockForStakingOnly :: bool
  mapRecords :: "(uint256 \<times> CTransactionRecord) list"
  ReadStoredTx :: "uint256 \<Rightarrow> CStoredTransaction option"
  IsSpent :: "uint256 \<Rightarrow> 32 word \<Rightarrow> bool"
  readRCTOutputLink :: "CCmpPubKey \<Rightarrow> 64 word option"
  GetKey :: "CCmpPubKey \<Rightarrow> CKey option"

text \<open>
  What the code reads of the wallet context and of the chain parameters: the loaded
  wallets (\<^verbatim>\<open>GetWallets\<close>), two consensus parameters and the three predicates of the
  frozen outputs, none of which is under src/.
\<close>

record WalletContext =
  GetWallets :: "CHDWallet list"
  m_frozen_blinded_height :: int
  m_max_tainted_value_out :: CAmount
  IsBlacklistedAnonOutput :: "64 word \<Rightarrow> bool"
  IsWhitelistedAnonOutput :: "64 word \<Rightarrow> bool"
  IsFrozenBlindOutput :: "uint256 \<Rightarrow> bool"

definition EnsureWalletIsUnlocked :: "CHDWallet \<Rightarrow> rpc_error option" where
  "EnsureWalletIsUnlocked pwallet =
     (if IsLocked pwallet
      then Some (JSONRPCError RPC_WALLET_UNLOCK_NEEDED (strprintf
        ''Error: Wallet locked, please enter the wallet passphrase with walletpassphrase first.'' []))
      else if fUnlockForStakingOnly pwallet
      then Some (JSONRPCError RPC_WALLET_UNLOCK_NEEDED (strprintf
        ''Error: Wallet is unlocked for staking only.'' []))
      else None)"

text \<open>
  The index of an anonymous output in the chain, as the listing and the search of the
  tracer both read it: the stored transaction must be readable, its output of that index an
  anonymous output, and the link of its public key readable.
\<close>

definition read_anon_index :: "CHDWallet \<Rightarrow> uint256 \<Rightarrow> COutputRecord \<Rightarrow> 64 word option" where
  "read_anon_index pwallet txid r =
     (case ReadStoredTx pwallet txid of
        None \<Rightarrow> None
      | Some stx \<Rightarrow>
          if txout_type (tx_vpout stx (unat (out_n r))) \<noteq> OUTPUT_RINGCT then None
          else readRCTOutputLink pwallet (txout_pk (tx_vpout stx (unat (out_n r)))))"

text \<open>
  A \<^verbatim>\<open>std::set\<close> is the list of its elements in increasing order: \<^verbatim>\<open>insert\<close> leaves the set
  as it is when the element is there, and \<^verbatim>\<open>count\<close> is membership.
\<close>

definition std_set_insert :: "'a::linorder \<Rightarrow> 'a list \<Rightarrow> 'a list" where
  "std_set_insert x xs = (if x \<in> set xs then xs else insort x xs)"

section \<open>The tracer of frozen outputs\<close>

record TracedOutput =
  m_n :: int
  m_type :: OutputTypes
  m_value :: CAmount
  m_blinding_factor :: uint256
  m_spentby :: uint256
  m_is_spent :: bool
  m_forced_include :: bool
  m_spendable :: bool
  m_anon_index :: "64 word"
  m_anon_spend_key :: "CKey option"

text \<open>The default member initialisers; an invalid \<^verbatim>\<open>CKey\<close> is \<open>None\<close>.\<close>

definition TracedOutput_init :: TracedOutput where
  "TracedOutput_init =
     \<lparr>m_n = - 1, m_type = OUTPUT_NULL, m_value = 0, m_blinding_factor = 0, m_spentby = 0,
      m_is_spent = False, m_forced_include = False, m_spendable = False, m_anon_index = - 1,
      m_anon_spend_key = None\<rparr>"

record TracedTx =
  m_input_type :: OutputTypes
  m_wallet_name :: string
  m_inputs :: "COutPoint list"
  m_outputs :: "int \<Rightarrow> TracedOutput option"
  m_input_amount_traced_to_plain :: CAmount

text \<open>\<^verbatim>\<open>TracedTx()\<close>: value-initialised, so the input type is the enum's zero.\<close>

definition TracedTx_init :: TracedTx where
  "TracedTx_init =
     \<lparr>m_input_type = OUTPUT_NULL, m_wallet_name = [], m_inputs = [], m_outputs = Map.empty,
      m_input_amount_traced_to_plain = 0\<rparr>"

text \<open>
  The state the walk changes: the map \<^verbatim>\<open>traced_txs\<close> and the array \<^verbatim>\<open>warnings\<close>, both passed
  by reference.
\<close>

record trace_state =
  traced_txs :: "uint256 \<Rightarrow> TracedTx option"
  warnings :: "message list"

text \<open>
  The reference \<^verbatim>\<open>traced_tx\<close> into the map: reading it reads the entry of the transaction
  in the current map, and writing it writes that entry, also after a recursive call has
  changed the map.
\<close>

definition traced_tx :: "trace_state \<Rightarrow> uint256 \<Rightarrow> TracedTx" where
  "traced_tx st h = (case traced_txs st h of None \<Rightarrow> TracedTx_init | Some t \<Rightarrow> t)"

definition set_traced_tx :: "uint256 \<Rightarrow> TracedTx \<Rightarrow> trace_state \<Rightarrow> trace_state" where
  "set_traced_tx h t st = st\<lparr>traced_txs := (traced_txs st)(h \<mapsto> t)\<rparr>"

definition push_warning :: "message \<Rightarrow> trace_state \<Rightarrow> trace_state" where
  "push_warning m st = st\<lparr>warnings := warnings st @ [m]\<rparr>"

text \<open>\<^verbatim>\<open>std::string::find(s) != npos\<close>: \<open>s\<close> occurs in the string.\<close>

fun string_find :: "string \<Rightarrow> string \<Rightarrow> bool" where
  "string_find [] s = (s = [])"
| "string_find (c # cs) s = (prefix s (c # cs) \<or> string_find cs s)"

text \<open>The test at the head of \<^verbatim>\<open>traceFrozenPrevout\<close>: the output is in the map already.\<close>

definition already_traced :: "trace_state \<Rightarrow> COutPoint \<Rightarrow> bool" where
  "already_traced st op_trace =
     (case traced_txs st (op_hash op_trace) of
        None \<Rightarrow> False
      | Some t \<Rightarrow> m_outputs t (sint (op_n op_trace)) \<noteq> None)"

definition input_type_of :: "CTransactionRecord \<Rightarrow> OutputTypes" where
  "input_type_of rtx =
     (if bit (nFlags_rtx rtx) ORF_ANON_IN then OUTPUT_RINGCT
      else if bit (nFlags_rtx rtx) ORF_BLIND_IN then OUTPUT_CT
      else OUTPUT_STANDARD)"

text \<open>
  The body of the loop over the wallets, up to the loop over the inputs: the transaction
  is inserted in the map when it is not there, its input type is set and the name of the
  wallet is added to its wallet names.
\<close>

definition enter_traced_tx :: "CHDWallet \<Rightarrow> CTransactionRecord \<Rightarrow> uint256 \<Rightarrow> trace_state \<Rightarrow> trace_state" where
  "enter_traced_tx pwallet rtx h st =
     (let t = traced_tx st h;
          wallet_name = GetDisplayName pwallet
      in set_traced_tx h
           (t\<lparr>m_input_type := input_type_of rtx,
              m_wallet_name :=
                (if string_find (m_wallet_name t) wallet_name then m_wallet_name t
                 else m_wallet_name t @ (if m_wallet_name t = [] then [] else '', '') @ wallet_name)\<rparr>)
           st)"

text \<open>After the recursive call for an input: the input is pushed unless it is there.\<close>

definition push_input :: "uint256 \<Rightarrow> COutPoint \<Rightarrow> trace_state \<Rightarrow> trace_state" where
  "push_input h op_in st =
     (let t = traced_tx st h
      in if op_in \<in> set (m_inputs t) then st
         else set_traced_tx h (t\<lparr>m_inputs := m_inputs t @ [op_in]\<rparr>) st)"

text \<open>
  The rest of the body of the loop over the wallets, from \<^verbatim>\<open>rtx.GetOutput\<close> on: how the
  output traced is recorded. Each \<^verbatim>\<open>continue\<close> ends the body with the state reached.
\<close>

definition record_prevout ::
  "CHDWallet \<Rightarrow> CTransactionRecord \<Rightarrow> COutPoint \<Rightarrow> uint256 \<Rightarrow> trace_state \<Rightarrow> trace_state" where
  "record_prevout pwallet rtx op_trace txid_spentby st =
     (case GetOutput rtx (sint (op_n op_trace)) of
        None \<Rightarrow> st
      | Some r \<Rightarrow>
     (case ReadStoredTx pwallet (op_hash op_trace) of
        None \<Rightarrow> push_warning (strprintf ''ReadStoredTx failed %s'' [ArgHash (op_hash op_trace)]) st
      | Some stx \<Rightarrow>
     (let anon_pubkey = (if nType r = OUTPUT_RINGCT then txout_pk (tx_vpout stx (unat (out_n r))) else []);
          link = (if nType r = OUTPUT_RINGCT then readRCTOutputLink pwallet anon_pubkey else Some 0);
          anon_index = (case link of None \<Rightarrow> 0 | Some i \<Rightarrow> i);
          st1 = (if link = None
                 then push_warning (strprintf ''ReadRCTOutputLink failed %s'' [ArgOutPoint op_trace]) st
                 else st);
          t = traced_tx st1 (op_hash op_trace);
          o0 = (case m_outputs t (uint (out_n r)) of None \<Rightarrow> TracedOutput_init | Some o' \<Rightarrow> o');
          o1 = o0\<lparr>m_type := (if nType r = OUTPUT_RINGCT then OUTPUT_RINGCT else OUTPUT_CT),
                  m_n := uint (out_n r), m_anon_index := anon_index, m_spentby := txid_spentby\<rparr>;
          o2 = (if m_blinding_factor o1 = 0
                then o1\<lparr>m_value := nValue r,
                        m_is_spent := IsSpent pwallet (op_hash op_trace) (op_n op_trace),
                        m_blinding_factor :=
                          (case GetBlind stx (uint (out_n r)) of None \<Rightarrow> m_blinding_factor o1 | Some b \<Rightarrow> b)\<rparr>
                else o1);
          st2 = (if m_blinding_factor o1 = 0 \<and> GetBlind stx (uint (out_n r)) = None
                 then push_warning (strprintf ''GetBlind failed %s'' [ArgOutPoint op_trace]) st1
                 else st1);
          need_key = (nType r = OUTPUT_RINGCT \<and> m_anon_spend_key o2 = None);
          o3 = (if need_key then o2\<lparr>m_anon_spend_key := GetKey pwallet anon_pubkey\<rparr> else o2);
          st3 = (if need_key \<and> GetKey pwallet anon_pubkey = None
                 then push_warning (strprintf ''GetKey failed %s'' [ArgOutPoint op_trace]) st2
                 else st2)
      in set_traced_tx (op_hash op_trace)
           (t\<lparr>m_outputs := (m_outputs t)(uint (out_n r) \<mapsto> o3)\<rparr>) st3)))"

text \<open>
  A loop whose body may not return: \<open>for_each body xs st\<close> runs the body on each element
  in turn, from the state the one before left, and does not return when a body does not.
\<close>

fun for_each :: "('a \<Rightarrow> 's \<Rightarrow> 's option) \<Rightarrow> 'a list \<Rightarrow> 's \<Rightarrow> 's option" where
  "for_each body [] st = Some st"
| "for_each body (x # xs) st = Option.bind (body x st) (for_each body xs)"

lemma for_each_mono [partial_function_mono]:
  assumes "\<And>x st. mono_option (\<lambda>f. body f x st)"
  shows "mono_option (\<lambda>f. for_each (body f) xs st)"
proof (induction xs arbitrary: st)
  case Nil
  show ?case by (simp add: option.const_mono)
next
  case (Cons x xs)
  show ?case
    unfolding for_each.simps
    by (rule bind_mono) (rule assms, rule Cons.IH)
qed

text \<open>
  \<^verbatim>\<open>traceFrozenPrevout\<close>. The recursion is the source's: through the inputs of the record of
  the transaction, in each wallet that has one, before the output itself is recorded. The
  result is \<open>None\<close> when the call does not return.
\<close>

partial_function (option) traceFrozenPrevout ::
  "WalletContext \<Rightarrow> COutPoint \<Rightarrow> uint256 \<Rightarrow> trace_state \<Rightarrow> trace_state option" where
  "traceFrozenPrevout context op_trace txid_spentby st =
     (if already_traced st op_trace then Some st
      else for_each
        (\<lambda>pwallet st.
           case map_of (mapRecords pwallet) (op_hash op_trace) of
             None \<Rightarrow> Some st
           | Some rtx \<Rightarrow>
               Option.bind
                 (if input_type_of rtx \<noteq> OUTPUT_STANDARD
                  then for_each
                         (\<lambda>op_in st. Option.bind
                            (traceFrozenPrevout context op_in (op_hash op_trace) st)
                            (\<lambda>st. Some (push_input (op_hash op_trace) op_in st)))
                         (vin rtx) (enter_traced_tx pwallet rtx (op_hash op_trace) st)
                  else Some (enter_traced_tx pwallet rtx (op_hash op_trace) st))
                 (\<lambda>st. Some (record_prevout pwallet rtx op_trace txid_spentby st)))
        (GetWallets context) st)"

subsection \<open>traceFrozenOutputs\<close>

text \<open>
  The array \<^verbatim>\<open>uv_extra_outputs\<close>: \<open>None\<close> when the value is not an array. An entry is
  modelled by what \<^verbatim>\<open>RPCTypeCheckObj\<close>, \<^verbatim>\<open>ParseHashO\<close> and \<^verbatim>\<open>get_int\<close> (none under src/) make of
  it: the outpoint, or the error thrown. The loop inserts the outpoints in \<^verbatim>\<open>extra_txouts\<close>
  and stops at the first entry that throws.
\<close>

fun read_extra_outputs :: "(rpc_error + COutPoint) list \<Rightarrow> COutPoint list \<Rightarrow> rpc_error + COutPoint list" where
  "read_extra_outputs [] extra_txouts = Inr extra_txouts"
| "read_extra_outputs (uvi # rest) extra_txouts =
     (case uvi of
        Inl e \<Rightarrow> Inl e
      | Inr op_extra \<Rightarrow> read_extra_outputs rest (std_set_insert op_extra extra_txouts))"

text \<open>``Ensure all wallets are unlocked'': the first wallet that is not throws.\<close>

fun ensure_all_unlocked :: "CHDWallet list \<Rightarrow> rpc_error option" where
  "ensure_all_unlocked [] = None"
| "ensure_all_unlocked (pwallet # rest) =
     (if IsLocked pwallet \<or> fUnlockForStakingOnly pwallet
      then Some (JSONRPCError RPC_WALLET_UNLOCK_NEEDED (strprintf
        ''Error: Wallet %s is locked, please unlock all loaded wallets for this command.''
        [ArgStr (GetDisplayName pwallet)]))
      else ensure_all_unlocked rest)"

text \<open>What the search for the frozen outputs builds.\<close>

record trace_search =
  top_level :: "COutPoint list"
  set_forced :: "COutPoint list"
  total_traced :: CAmount
  num_traced :: nat
  num_searched :: nat
  search_warnings :: "message list"

text \<open>The body of the loop over the outputs of a record, in the search.\<close>

definition search_output ::
  "WalletContext \<Rightarrow> CAmount \<Rightarrow> CAmount \<Rightarrow> COutPoint list \<Rightarrow> CHDWallet \<Rightarrow> uint256 \<Rightarrow> bool
    \<Rightarrow> COutputRecord \<Rightarrow> trace_search \<Rightarrow> trace_search" where
  "search_output context min_value max_frozen_output_spendable extra_txouts pwallet txid in_height r s =
     (let force_include = ((txid, ucast (out_n r)) \<in> set extra_txouts)
      in
      if \<not> in_height \<and> \<not> force_include then s
      else if ((nType r \<noteq> OUTPUT_RINGCT \<and> nType r \<noteq> OUTPUT_CT) \<or> \<not> bit (nFlags r) ORF_OWNED
               \<or> nValue r <s min_value) \<and> \<not> force_include then s
      else if IsSpent pwallet txid (ucast (out_n r)) \<and> \<not> force_include then s
      else
        (case (if nType r = OUTPUT_RINGCT then read_anon_index pwallet txid r else Some (- 1)) of
           None \<Rightarrow>
             s\<lparr>search_warnings := search_warnings s @
                 [strprintf ''Failed to get anon index for %s.%d'' [ArgHash txid, ArgInt (uint (out_n r))]]\<rparr>
         | Some anon_index \<Rightarrow>
             (let is_spendable0 = (\<not> (nType r = OUTPUT_RINGCT \<and> IsBlacklistedAnonOutput context anon_index));
                  is_spendable =
                    (if max_frozen_output_spendable <s nValue r
                     then (if nType r = OUTPUT_RINGCT
                           then (if \<not> IsWhitelistedAnonOutput context anon_index then False else is_spendable0)
                           else if nType r = OUTPUT_CT
                           then (if IsFrozenBlindOutput context txid then False else is_spendable0)
                           else is_spendable0)
                     else is_spendable0);
                  op_trace = (txid, ucast (out_n r))
              in if is_spendable \<and> \<not> force_include then s
                 else if op_trace \<in> set (top_level s) then s
                 else s\<lparr>total_traced := total_traced s + nValue r,
                        num_traced := num_traced s + 1,
                        top_level := std_set_insert op_trace (top_level s),
                        set_forced := (if force_include then std_set_insert op_trace (set_forced s)
                                       else set_forced s)\<rparr>)))"

definition search_record ::
  "WalletContext \<Rightarrow> CAmount \<Rightarrow> CAmount \<Rightarrow> COutPoint list \<Rightarrow> CHDWallet
    \<Rightarrow> uint256 \<times> CTransactionRecord \<Rightarrow> trace_search \<Rightarrow> trace_search" where
  "search_record context min_value max_frozen_output_spendable extra_txouts pwallet it s =
     (let txid = fst it; rtx = snd it;
          in_height = (\<not> (block_height rtx < 1 \<or> block_height rtx > m_frozen_blinded_height context))
      in fold (search_output context min_value max_frozen_output_spendable extra_txouts pwallet txid in_height)
           (vout rtx) (s\<lparr>num_searched := num_searched s + 1\<rparr>))"

definition search_frozen ::
  "WalletContext \<Rightarrow> CAmount \<Rightarrow> CAmount \<Rightarrow> COutPoint list \<Rightarrow> trace_search" where
  "search_frozen context min_value max_frozen_output_spendable extra_txouts =
     fold (\<lambda>pwallet. fold (search_record context min_value max_frozen_output_spendable extra_txouts pwallet)
                        (mapRecords pwallet))
       (GetWallets context)
       \<lparr>top_level = [], set_forced = [], total_traced = 0, num_traced = 0, num_searched = 0,
        search_warnings = []\<rparr>"

text \<open>
  The body of the loop over \<^verbatim>\<open>top_level\<close>, after the call of \<^verbatim>\<open>traceFrozenPrevout\<close>: the
  transaction is inserted when it is not in the map, and a forced output is marked
  (\<^verbatim>\<open>operator[]\<close> makes its entry when there is none).
\<close>

definition mark_top_level :: "COutPoint list \<Rightarrow> COutPoint \<Rightarrow> trace_state \<Rightarrow> trace_state" where
  "mark_top_level forced op_top st =
     (let st1 = set_traced_tx (op_hash op_top) (traced_tx st (op_hash op_top)) st;
          t = traced_tx st1 (op_hash op_top);
          o0 = (case m_outputs t (sint (op_n op_top)) of None \<Rightarrow> TracedOutput_init | Some o' \<Rightarrow> o')
      in if op_top \<in> set forced
         then set_traced_tx (op_hash op_top)
                (t\<lparr>m_outputs := (m_outputs t)(sint (op_n op_top) \<mapsto> o0\<lparr>m_forced_include := True\<rparr>)\<rparr>) st1
         else st1)"

text \<open>``Fill in all known tx outputs'': the body of the loop over the outputs of a record.\<close>

definition fill_output ::
  "CHDWallet \<Rightarrow> CStoredTransaction \<Rightarrow> uint256 \<Rightarrow> COutputRecord \<Rightarrow> trace_state \<Rightarrow> trace_state" where
  "fill_output pwallet stx txid r st =
     (if (nType r \<noteq> OUTPUT_RINGCT \<and> nType r \<noteq> OUTPUT_CT) \<or> \<not> bit (nFlags r) ORF_OWNED then st
      else if m_outputs (traced_tx st txid) (uint (out_n r)) \<noteq> None then st
      else
        (let link = (if nType r = OUTPUT_RINGCT
                     then readRCTOutputLink pwallet (txout_pk (tx_vpout stx (unat (out_n r))))
                     else Some (- 1));
             st1 = (if link = None
                    then push_warning (strprintf ''ReadRCTOutputLink failed %s %d''
                           [ArgHash txid, ArgInt (uint (out_n r))]) st
                    else st);
             st2 = (if GetBlind stx (uint (out_n r)) = None
                    then push_warning (strprintf ''GetBlind failed %s %d''
                           [ArgHash txid, ArgInt (uint (out_n r))]) st1
                    else st1);
             traced_output = TracedOutput_init
               \<lparr>m_type := (if nType r = OUTPUT_RINGCT then OUTPUT_RINGCT else OUTPUT_CT),
                m_value := nValue r,
                m_n := uint (out_n r),
                m_anon_index := (case link of None \<Rightarrow> - 1 | Some i \<Rightarrow> i),
                m_is_spent := IsSpent pwallet txid (ucast (out_n r)),
                m_blinding_factor := (case GetBlind stx (uint (out_n r)) of None \<Rightarrow> 0 | Some b \<Rightarrow> b)\<rparr>;
             t = traced_tx st2 txid
         in set_traced_tx txid (t\<lparr>m_outputs := (m_outputs t)(uint (out_n r) \<mapsto> traced_output)\<rparr>) st2))"

definition fill_record :: "CHDWallet \<Rightarrow> uint256 \<times> CTransactionRecord \<Rightarrow> trace_state \<Rightarrow> trace_state" where
  "fill_record pwallet it st =
     (case traced_txs st (fst it) of
        None \<Rightarrow> st
      | Some t \<Rightarrow>
          (case ReadStoredTx pwallet (fst it) of
             None \<Rightarrow> push_warning (strprintf ''ReadStoredTx failed %s'' [ArgHash (fst it)]) st
           | Some stx \<Rightarrow> fold (fill_output pwallet stx (fst it)) (vout (snd it)) st))"

definition fill_known_outputs :: "WalletContext \<Rightarrow> trace_state \<Rightarrow> trace_state" where
  "fill_known_outputs context st =
     fold (\<lambda>pwallet. fold (fill_record pwallet) (mapRecords pwallet)) (GetWallets context) st"

text \<open>
  What \<^verbatim>\<open>traceFrozenOutputs\<close> has when it renders its result: the outpoints of \<^verbatim>\<open>top_level\<close>,
  the map of the traced transactions, the two counters the result carries and the
  warnings. The model ends there: the result object is these, printed.
\<close>

record trace_result =
  res_top_level :: "COutPoint list"
  res_traced_txns :: "uint256 \<Rightarrow> TracedTx option"
  res_num_traced :: nat
  res_total_traced :: CAmount
  res_warnings :: "message list"

text \<open>
  The loop over \<^verbatim>\<open>top_level\<close>: each outpoint is traced with a null \<^verbatim>\<open>spent_by\<close>, from an
  empty map and the warnings of the search.
\<close>

definition trace_top_level :: "WalletContext \<Rightarrow> trace_search \<Rightarrow> trace_state option" where
  "trace_top_level context s =
     for_each
       (\<lambda>op_top st. Option.bind (traceFrozenPrevout context op_top 0 st)
          (\<lambda>st. Some (mark_top_level (set_forced s) op_top st)))
       (top_level s)
       \<lparr>traced_txs = Map.empty, warnings = search_warnings s\<rparr>"

definition trace_result_of :: "WalletContext \<Rightarrow> trace_search \<Rightarrow> trace_state \<Rightarrow> trace_result" where
  "trace_result_of context s st =
     (let st' = fill_known_outputs context st
      in \<lparr>res_top_level = top_level s, res_traced_txns = traced_txs st',
          res_num_traced = num_traced s, res_total_traced = total_traced s,
          res_warnings = warnings st'\<rparr>)"

text \<open>
  \<^verbatim>\<open>traceFrozenOutputs\<close>: \<open>Some (Inl e)\<close> when it throws \<open>e\<close>, \<open>Some (Inr res)\<close> when it
  returns, and \<open>None\<close> when it does not return.
\<close>

definition traceFrozenOutputs ::
  "WalletContext \<Rightarrow> CAmount \<Rightarrow> CAmount \<Rightarrow> (rpc_error + COutPoint) list option
    \<Rightarrow> (rpc_error + trace_result) option" where
  "traceFrozenOutputs context min_value max_frozen_output_spendable uv_extra_outputs =
     (case (case uv_extra_outputs of None \<Rightarrow> Inr [] | Some uvs \<Rightarrow> read_extra_outputs uvs []) of
        Inl e \<Rightarrow> Some (Inl e)
      | Inr extra_txouts \<Rightarrow>
     (case ensure_all_unlocked (GetWallets context) of
        Some e \<Rightarrow> Some (Inl e)
      | None \<Rightarrow>
     (let s = search_frozen context min_value max_frozen_output_spendable extra_txouts
      in Option.bind (trace_top_level context s)
           (\<lambda>st. Some (Inr (trace_result_of context s st))))))"

subsection \<open>debugwallet\<close>

definition min_frozen_blinded_value :: CAmount where
  "min_frozen_blinded_value = 10000"

text \<open>
  The option \<^verbatim>\<open>trace_frozen_outputs\<close>: \<open>extra_outputs\<close> is the array of the option
  \<^verbatim>\<open>trace_frozen_extra\<close>, the empty array when the option is not given, and
  \<open>max_frozen_output_spendable\<close> the value of the option of that name, the consensus
  parameter \<^verbatim>\<open>m_max_tainted_value_out\<close> when it is not given.
\<close>

definition debugwallet_trace_frozen_outputs ::
  "WalletContext \<Rightarrow> CAmount \<Rightarrow> (rpc_error + COutPoint) list \<Rightarrow> (rpc_error + trace_result) option" where
  "debugwallet_trace_frozen_outputs context max_frozen_output_spendable extra_outputs =
     traceFrozenOutputs context min_frozen_blinded_value max_frozen_output_spendable (Some extra_outputs)"

text \<open>
  An entry of the array \<^verbatim>\<open>frozen_outputs\<close>; the key \<^verbatim>\<open>anon_index\<close> is there for an anonymous
  output, and its value is the index cast to \<^verbatim>\<open>int\<close>: its low 32 bits.
\<close>

record frozen_output =
  fo_type :: OutputTypes
  fo_spendable :: bool
  fo_txid :: uint256
  fo_n :: "16 word"
  fo_amount :: CAmount
  fo_anon_index :: "32 word option"
  fo_blacklisted :: bool

record frozen_listing =
  frozen_outputs :: "frozen_output list"
  num_spendable :: nat
  total_spendable :: CAmount
  num_unspendable :: nat
  total_unspendable :: CAmount

text \<open>The body of the loop over the outputs of a record, in the listing.\<close>

definition list_output ::
  "WalletContext \<Rightarrow> CAmount \<Rightarrow> CHDWallet \<Rightarrow> uint256 \<Rightarrow> COutputRecord \<Rightarrow> frozen_listing \<Rightarrow> frozen_listing" where
  "list_output context max_frozen_output_spendable pwallet txid r l =
     (if (nType r \<noteq> OUTPUT_RINGCT \<and> nType r \<noteq> OUTPUT_CT) \<or> \<not> bit (nFlags r) ORF_OWNED
         \<or> nValue r <s min_frozen_blinded_value \<or> IsSpent pwallet txid (ucast (out_n r)) then l
      else
        (let link = (if nType r = OUTPUT_RINGCT then read_anon_index pwallet txid r else None);
             anon_index = (case link of None \<Rightarrow> 0 | Some i \<Rightarrow> i);
             is_spendable =
               (if nType r = OUTPUT_RINGCT
                then \<not> (link = None \<or> IsBlacklistedAnonOutput context anon_index
                        \<or> (\<not> IsWhitelistedAnonOutput context anon_index
                            \<and> max_frozen_output_spendable <s nValue r))
                else if nType r = OUTPUT_CT
                then \<not> (IsFrozenBlindOutput context txid \<and> max_frozen_output_spendable <s nValue r)
                else True);
             out = \<lparr>fo_type = (if nType r = OUTPUT_RINGCT then OUTPUT_RINGCT else OUTPUT_CT),
                    fo_spendable = is_spendable, fo_txid = txid, fo_n = out_n r, fo_amount = nValue r,
                    fo_anon_index = (if nType r = OUTPUT_RINGCT then Some (ucast anon_index) else None),
                    fo_blacklisted = (nType r = OUTPUT_RINGCT \<and> IsBlacklistedAnonOutput context anon_index)\<rparr>
         in (if is_spendable
             then l\<lparr>total_spendable := total_spendable l + nValue r, num_spendable := num_spendable l + 1\<rparr>
             else l\<lparr>total_unspendable := total_unspendable l + nValue r, num_unspendable := num_unspendable l + 1\<rparr>)
            \<lparr>frozen_outputs := frozen_outputs l @ [out]\<rparr>))"

definition list_record ::
  "WalletContext \<Rightarrow> CAmount \<Rightarrow> CHDWallet \<Rightarrow> uint256 \<times> CTransactionRecord \<Rightarrow> frozen_listing \<Rightarrow> frozen_listing" where
  "list_record context max_frozen_output_spendable pwallet it l =
     (if block_height (snd it) < 1 \<or> block_height (snd it) > m_frozen_blinded_height context then l
      else fold (list_output context max_frozen_output_spendable pwallet (fst it)) (vout (snd it)) l)"

text \<open>
  The option \<^verbatim>\<open>list_frozen_outputs\<close>, for the wallet of the request. \<^verbatim>\<open>std::sort\<close> orders
  the entries by decreasing amount and does not say in which order it leaves entries of
  equal amounts; the model leaves those in the order they were listed in. The source
  compares the amounts as the doubles \<^verbatim>\<open>get_real\<close> reads, which keep the order of the
  amounts but may make two large amounts equal; the model compares the amounts themselves.
  Nothing proved below depends on the order of the entries.
\<close>

definition debugwallet_list_frozen_outputs ::
  "WalletContext \<Rightarrow> CHDWallet \<Rightarrow> CAmount \<Rightarrow> rpc_error + frozen_listing" where
  "debugwallet_list_frozen_outputs context pwallet max_frozen_output_spendable =
     (case EnsureWalletIsUnlocked pwallet of
        Some e \<Rightarrow> Inl e
      | None \<Rightarrow>
          (let l = fold (list_record context max_frozen_output_spendable pwallet) (mapRecords pwallet)
                     \<lparr>frozen_outputs = [], num_spendable = 0, total_spendable = 0,
                      num_unspendable = 0, total_unspendable = 0\<rparr>
           in Inr (l\<lparr>frozen_outputs := sort_key (\<lambda>e. - sint (fo_amount e)) (frozen_outputs l)\<rparr>)))"

section \<open>Properties of a walk, and example wallets\<close>

text \<open>
  The inputs of every record of every wallet come from transactions of a smaller rank:
  the records form no cycle. On a chain the position of a transaction is such a rank, a
  transaction spending outputs of transactions before it.
\<close>

definition inputs_ranked :: "(uint256 \<Rightarrow> nat) \<Rightarrow> WalletContext \<Rightarrow> bool" where
  "inputs_ranked rank ctx =
     (\<forall>pwallet\<in>set (GetWallets ctx). \<forall>it\<in>set (mapRecords pwallet). \<forall>op_in\<in>set (vin (snd it)).
        rank (op_hash op_in) < rank (fst it))"

text \<open>
  Example data: an owned blinded output, a record with blinded inputs, an unlocked wallet
  with no stored transactions, and a context in which every transaction is frozen and the
  frozen height is 100.
\<close>

definition owned_blind_output :: "16 word \<Rightarrow> CAmount \<Rightarrow> COutputRecord" where
  "owned_blind_output i v =
     \<lparr>nType = OUTPUT_CT, nFlags = 1, out_n = i, nValue = v, scriptPubKey = [], sNarration = [],
      vPath = []\<rparr>"

definition blind_in_record :: "int \<Rightarrow> COutPoint list \<Rightarrow> COutputRecord list \<Rightarrow> CTransactionRecord" where
  "blind_in_record height ins outs =
     \<lparr>blockHash = 9, block_height = height, nFlags_rtx = 16384, nIndex = 0, nBlockTime = 0,
      nTimeReceived = 0, nFee = 0, mapValue = [], vin = ins, vout = outs\<rparr>"

definition plain_wallet :: "(uint256 \<times> CTransactionRecord) list \<Rightarrow> CHDWallet" where
  "plain_wallet records =
     \<lparr>GetDisplayName = ''w'', IsLocked = False, fUnlockForStakingOnly = False,
      mapRecords = records,
      ReadStoredTx = (\<lambda>txid. None), IsSpent = (\<lambda>txid i. False),
      readRCTOutputLink = (\<lambda>pk. None), GetKey = (\<lambda>pk. None)\<rparr>"

definition frozen_context :: "CHDWallet list \<Rightarrow> WalletContext" where
  "frozen_context ws =
     \<lparr>GetWallets = ws, m_frozen_blinded_height = 100, m_max_tainted_value_out = 20000,
      IsBlacklistedAnonOutput = (\<lambda>i. False), IsWhitelistedAnonOutput = (\<lambda>i. False),
      IsFrozenBlindOutput = (\<lambda>txid. True)\<rparr>"

text \<open>
  Two records corrupted into a cycle: transaction 1 lists an input from transaction 2, and
  transaction 2 an input from transaction 1. Each has one owned blinded output of 50000.
\<close>

definition cyclic_context :: WalletContext where
  "cyclic_context =
     frozen_context [plain_wallet
       [(1, blind_in_record 10 [(2, 0)] [owned_blind_output 0 50000]),
        (2, blind_in_record 10 [(1, 0)] [owned_blind_output 0 50000])]]"

text \<open>The same two records without the corruption: transaction 2 spends from transaction 1.\<close>

definition chain_context :: WalletContext where
  "chain_context =
     frozen_context [plain_wallet
       [(1, blind_in_record 10 [] [owned_blind_output 0 50000]),
        (2, blind_in_record 10 [(1, 0)] [owned_blind_output 0 50000])]]"

text \<open>A state of the walk on the cyclic records in which neither output is recorded yet.\<close>

definition cyclic_open :: "WalletContext \<Rightarrow> COutPoint \<Rightarrow> trace_state \<Rightarrow> bool" where
  "cyclic_open ctx op_trace st =
     (ctx = cyclic_context \<and> (op_trace = (1, 0) \<or> op_trace = (2, 0)) \<and>
      \<not> already_traced st (1, 0) \<and> \<not> already_traced st (2, 0))"

text \<open>The cyclic records in a wallet that is locked.\<close>

definition locked_context :: WalletContext where
  "locked_context =
     frozen_context [(plain_wallet
       [(1, blind_in_record 10 [(2, 0)] [owned_blind_output 0 50000]),
        (2, blind_in_record 10 [(1, 0)] [owned_blind_output 0 50000])])\<lparr>IsLocked := True\<rparr>]"

definition two_locked_context :: WalletContext where
  "two_locked_context =
     frozen_context
       [plain_wallet
          [(1, blind_in_record 10 [(2, 0)] [owned_blind_output 0 50000]),
           (2, blind_in_record 10 [(1, 0)] [owned_blind_output 0 50000])],
        (plain_wallet [])\<lparr>GetDisplayName := ''a'', IsLocked := True\<rparr>,
        (plain_wallet [])\<lparr>GetDisplayName := ''b'', fUnlockForStakingOnly := True\<rparr>]"

text \<open>A wallet with one record, of two owned blinded outputs, of indices 0 and 1.\<close>

definition two_output_wallet :: "CAmount \<Rightarrow> CAmount \<Rightarrow> CHDWallet" where
  "two_output_wallet v_lo v_hi =
     plain_wallet [(1, blind_in_record 10 [] [owned_blind_output 0 v_lo, owned_blind_output 1 v_hi])]"

text \<open>
  A wallet in which every stored transaction is readable, its outputs anonymous, with no
  blinding factor stored and no link of a public key readable; an owned anonymous output.
\<close>

definition anon_stored_wallet :: CHDWallet where
  "anon_stored_wallet =
     (plain_wallet [])\<lparr>ReadStoredTx :=
       (\<lambda>txid. Some \<lparr>tx_vpout = (\<lambda>i. \<lparr>txout_type = OUTPUT_RINGCT, txout_pk = []\<rparr>), vBlinds = []\<rparr>)\<rparr>"

definition owned_anon_output :: "16 word \<Rightarrow> CAmount \<Rightarrow> COutputRecord" where
  "owned_anon_output i v = (owned_blind_output i v)\<lparr>nType := OUTPUT_RINGCT\<rparr>"

text \<open>
  The two bounds of a frozen candidate: the height of the block of its transaction is
  between 1 and the frozen height of the consensus parameters, and its value is at least
  the minimum.
\<close>

definition within_frozen_bounds :: "WalletContext \<Rightarrow> CAmount \<Rightarrow> CTransactionRecord \<Rightarrow> COutputRecord \<Rightarrow> bool" where
  "within_frozen_bounds ctx min_value rtx r =
     (1 \<le> block_height rtx \<and> block_height rtx \<le> m_frozen_blinded_height ctx \<and> min_value \<le>s nValue r)"

text \<open>
  An entry of the listing, and an outpoint traced at the top level, is that of an output
  of a record of the wallet (of a loaded wallet) within the bounds.
\<close>

definition listed_within_bounds :: "WalletContext \<Rightarrow> CHDWallet \<Rightarrow> frozen_output \<Rightarrow> bool" where
  "listed_within_bounds ctx pwallet e =
     (\<exists>it\<in>set (mapRecords pwallet). \<exists>r\<in>set (vout (snd it)).
        fo_txid e = fst it \<and> fo_n e = out_n r \<and> fo_amount e = nValue r \<and>
        within_frozen_bounds ctx min_frozen_blinded_value (snd it) r)"

definition traced_within_bounds :: "WalletContext \<Rightarrow> CAmount \<Rightarrow> COutPoint \<Rightarrow> bool" where
  "traced_within_bounds ctx min_value op_trace =
     (\<exists>pwallet\<in>set (GetWallets ctx). \<exists>it\<in>set (mapRecords pwallet). \<exists>r\<in>set (vout (snd it)).
        op_trace = (fst it, ucast (out_n r)) \<and> within_frozen_bounds ctx min_value (snd it) r)"

text \<open>
  An output is owned and unspent; it is frozen with no whitelist entry: a blinded output of
  a frozen transaction, or an anonymous output whose index in the chain is readable and is
  neither blacklisted nor whitelisted; the listing has an entry for it with a given
  \<^verbatim>\<open>spendable\<close>.
\<close>

definition owned_unspent :: "CHDWallet \<Rightarrow> uint256 \<Rightarrow> COutputRecord \<Rightarrow> bool" where
  "owned_unspent pwallet txid r = (bit (nFlags r) ORF_OWNED \<and> \<not> IsSpent pwallet txid (ucast (out_n r)))"

definition frozen_not_whitelisted :: "WalletContext \<Rightarrow> CHDWallet \<Rightarrow> uint256 \<Rightarrow> COutputRecord \<Rightarrow> bool" where
  "frozen_not_whitelisted ctx pwallet txid r =
     (if nType r = OUTPUT_CT then IsFrozenBlindOutput ctx txid
      else nType r = OUTPUT_RINGCT \<and>
        (case read_anon_index pwallet txid r of
           None \<Rightarrow> False
         | Some i \<Rightarrow> \<not> IsBlacklistedAnonOutput ctx i \<and> \<not> IsWhitelistedAnonOutput ctx i))"

definition listed_as :: "frozen_listing \<Rightarrow> uint256 \<Rightarrow> COutputRecord \<Rightarrow> bool \<Rightarrow> bool" where
  "listed_as l txid r spendable =
     (\<exists>e\<in>set (frozen_outputs l). fo_txid e = txid \<and> fo_n e = out_n r \<and> fo_amount e = nValue r \<and>
        fo_spendable e = spendable)"

subsection \<open>What a trace reports\<close>

text \<open>
  What a walk leaves in its state: the traced output of an outpoint, when the map has one
  (the test at the head of \<^verbatim>\<open>traceFrozenPrevout\<close> is that it has), and whether the map has
  the transaction.
\<close>

definition output_of_trace :: "trace_state \<Rightarrow> COutPoint \<Rightarrow> TracedOutput option" where
  "output_of_trace st op = m_outputs (traced_tx st (op_hash op)) (sint (op_n op))"

definition already_entered :: "trace_state \<Rightarrow> uint256 \<Rightarrow> bool" where
  "already_entered st h = (traced_txs st h \<noteq> None)"

text \<open>
  The walk goes from an outpoint to the inputs of the records of its transaction: an
  outpoint has an edge to each input of a record of its transaction, in a loaded wallet,
  whose inputs are blinded or anonymous. The outpoints a walk from an outpoint is to visit
  are those the edges reach from it.
\<close>

definition input_edge :: "WalletContext \<Rightarrow> COutPoint \<Rightarrow> COutPoint \<Rightarrow> bool" where
  "input_edge ctx op op_in =
     (\<exists>pwallet\<in>set (GetWallets ctx). \<exists>rtx. map_of (mapRecords pwallet) (op_hash op) = Some rtx \<and>
        input_type_of rtx \<noteq> OUTPUT_STANDARD \<and> op_in \<in> set (vin rtx))"

text \<open>
  The blinding factor of an outpoint is known when the stored transaction of a loaded
  wallet has one that is not null: the code reads the blinding factor of a traced output
  only while the traced output has none.
\<close>

definition blind_known :: "WalletContext \<Rightarrow> COutPoint \<Rightarrow> bool" where
  "blind_known ctx op =
     (\<exists>pwallet\<in>set (GetWallets ctx). \<exists>stx b. ReadStoredTx pwallet (op_hash op) = Some stx \<and>
        GetBlind stx (sint (op_n op)) = Some b \<and> b \<noteq> 0)"

text \<open>
  What the visit of an outpoint in a wallet is to leave, in the warnings \<open>W\<close>, the
  transactions entered in the map and the outpoints recorded. Nothing, when the wallet has
  no record of the transaction. Else the transaction is entered and, when the record has
  the output: the warning \<^verbatim>\<open>ReadStoredTx failed\<close> naming the transaction, when its stored
  transaction is missing; else the output is recorded all the same, with the warning
  \<^verbatim>\<open>ReadRCTOutputLink failed\<close> naming the outpoint when it is anonymous and the link of its
  public key is unreadable, and the warning \<^verbatim>\<open>GetBlind failed\<close> naming the outpoint when the
  stored transaction has no blinding factor for it and no wallet knows one. A walk from an
  outpoint reports when every outpoint the edges reach from it is left so, in every loaded
  wallet.
\<close>

definition wallet_reports ::
  "WalletContext \<Rightarrow> message set \<Rightarrow> (uint256 \<Rightarrow> bool) \<Rightarrow> (COutPoint \<Rightarrow> bool) \<Rightarrow> CHDWallet
    \<Rightarrow> COutPoint \<Rightarrow> bool" where
  "wallet_reports ctx W entered recorded pwallet op =
     (case map_of (mapRecords pwallet) (op_hash op) of
        None \<Rightarrow> True
      | Some rtx \<Rightarrow>
          entered (op_hash op) \<and>
     (case GetOutput rtx (sint (op_n op)) of
        None \<Rightarrow> True
      | Some r \<Rightarrow>
     (case ReadStoredTx pwallet (op_hash op) of
        None \<Rightarrow> strprintf ''ReadStoredTx failed %s'' [ArgHash (op_hash op)] \<in> W
      | Some stx \<Rightarrow>
          recorded op \<and>
          (nType r = OUTPUT_RINGCT \<and>
           readRCTOutputLink pwallet (txout_pk (tx_vpout stx (unat (out_n r)))) = None \<longrightarrow>
             strprintf ''ReadRCTOutputLink failed %s'' [ArgOutPoint op] \<in> W) \<and>
          (GetBlind stx (uint (out_n r)) = None \<and> \<not> blind_known ctx op \<longrightarrow>
             strprintf ''GetBlind failed %s'' [ArgOutPoint op] \<in> W))))"

definition walk_reports ::
  "WalletContext \<Rightarrow> message set \<Rightarrow> (uint256 \<Rightarrow> bool) \<Rightarrow> (COutPoint \<Rightarrow> bool) \<Rightarrow> COutPoint \<Rightarrow> bool" where
  "walk_reports ctx W entered recorded op =
     (\<forall>op'. (input_edge ctx)\<^sup>*\<^sup>* op op' \<longrightarrow>
        (\<forall>pwallet\<in>set (GetWallets ctx). wallet_reports ctx W entered recorded pwallet op'))"

text \<open>
  The same for the result of the trace, and for the filling in of the known outputs. A
  record of a transaction of the result is filled in when the warning
  \<^verbatim>\<open>ReadStoredTx failed\<close> names its transaction, its stored transaction missing, or else
  every owned blinded or anonymous output of the record is in the result. An outpoint is
  filled from a record when a loaded wallet has a record with that output, owned and
  blinded or anonymous, and the stored transaction of it, and the warnings
  \<^verbatim>\<open>ReadRCTOutputLink failed\<close> and \<^verbatim>\<open>GetBlind failed\<close> name the transaction and the index
  when that wallet cannot read the link, or has no blinding factor.
\<close>

definition result_recorded :: "trace_result \<Rightarrow> COutPoint \<Rightarrow> bool" where
  "result_recorded res op =
     (case res_traced_txns res (op_hash op) of
        None \<Rightarrow> False
      | Some t \<Rightarrow> m_outputs t (sint (op_n op)) \<noteq> None)"

definition result_entered :: "trace_result \<Rightarrow> uint256 \<Rightarrow> bool" where
  "result_entered res h = (res_traced_txns res h \<noteq> None)"

definition record_filled ::
  "message set \<Rightarrow> (COutPoint \<Rightarrow> bool) \<Rightarrow> CHDWallet \<Rightarrow> uint256 \<times> CTransactionRecord \<Rightarrow> bool" where
  "record_filled W recorded pwallet it =
     (case ReadStoredTx pwallet (fst it) of
        None \<Rightarrow> strprintf ''ReadStoredTx failed %s'' [ArgHash (fst it)] \<in> W
      | Some stx \<Rightarrow>
          (\<forall>r\<in>set (vout (snd it)).
             (nType r = OUTPUT_RINGCT \<or> nType r = OUTPUT_CT) \<and> bit (nFlags r) ORF_OWNED \<longrightarrow>
             recorded (fst it, ucast (out_n r))))"

definition filled_from :: "WalletContext \<Rightarrow> message set \<Rightarrow> COutPoint \<Rightarrow> bool" where
  "filled_from ctx W op =
     (\<exists>pwallet\<in>set (GetWallets ctx). \<exists>it\<in>set (mapRecords pwallet). \<exists>r\<in>set (vout (snd it)). \<exists>stx.
        op = (fst it, ucast (out_n r)) \<and> ReadStoredTx pwallet (fst it) = Some stx \<and>
        (nType r = OUTPUT_RINGCT \<or> nType r = OUTPUT_CT) \<and> bit (nFlags r) ORF_OWNED \<and>
        (nType r = OUTPUT_RINGCT \<and>
         readRCTOutputLink pwallet (txout_pk (tx_vpout stx (unat (out_n r)))) = None \<longrightarrow>
           strprintf ''ReadRCTOutputLink failed %s %d'' [ArgHash (fst it), ArgInt (uint (out_n r))] \<in> W) \<and>
        (GetBlind stx (uint (out_n r)) = None \<longrightarrow>
           strprintf ''GetBlind failed %s %d'' [ArgHash (fst it), ArgInt (uint (out_n r))] \<in> W))"

text \<open>
  The search. The height of a record is within the frozen heights; the search reads an
  output (it comes to read the index of an anonymous output, and to test whether the output
  is spendable) when the output is one of the extra outputs, or else is within the heights,
  owned, blinded or anonymous, of the minimum value at least and unspent; an output so read
  is frozen and not spendable as the search has it. The search reports in a result when,
  for every output it reads, a warning \<^verbatim>\<open>Failed to get anon index\<close> names the transaction
  and the index of an anonymous output whose index is unreadable, and every other output
  that is not spendable, or is an extra output, is among the outpoints traced.
\<close>

definition in_frozen_height :: "WalletContext \<Rightarrow> CTransactionRecord \<Rightarrow> bool" where
  "in_frozen_height ctx rtx = (\<not> (block_height rtx < 1 \<or> block_height rtx > m_frozen_blinded_height ctx))"

definition search_reads ::
  "WalletContext \<Rightarrow> CAmount \<Rightarrow> COutPoint list \<Rightarrow> CHDWallet \<Rightarrow> uint256 \<times> CTransactionRecord
    \<Rightarrow> COutputRecord \<Rightarrow> bool" where
  "search_reads ctx min_value extra_txouts pwallet it r =
     (if (fst it, ucast (out_n r)) \<in> set extra_txouts then True
      else in_frozen_height ctx (snd it) \<and>
           (nType r = OUTPUT_RINGCT \<or> nType r = OUTPUT_CT) \<and> bit (nFlags r) ORF_OWNED \<and>
           \<not> nValue r <s min_value \<and> \<not> IsSpent pwallet (fst it) (ucast (out_n r)))"

definition frozen_unspendable ::
  "WalletContext \<Rightarrow> CAmount \<Rightarrow> CHDWallet \<Rightarrow> uint256 \<Rightarrow> COutputRecord \<Rightarrow> bool" where
  "frozen_unspendable ctx max_frozen_output_spendable pwallet txid r =
     (if nType r = OUTPUT_RINGCT
      then (case read_anon_index pwallet txid r of
              None \<Rightarrow> False
            | Some anon_index \<Rightarrow>
                IsBlacklistedAnonOutput ctx anon_index \<or>
                (max_frozen_output_spendable <s nValue r \<and> \<not> IsWhitelistedAnonOutput ctx anon_index))
      else nType r = OUTPUT_CT \<and> max_frozen_output_spendable <s nValue r \<and> IsFrozenBlindOutput ctx txid)"

definition search_reported ::
  "WalletContext \<Rightarrow> CAmount \<Rightarrow> CAmount \<Rightarrow> COutPoint list \<Rightarrow> trace_result \<Rightarrow> bool" where
  "search_reported ctx min_value max_frozen_output_spendable extra_txouts res =
     (\<forall>pwallet\<in>set (GetWallets ctx). \<forall>it\<in>set (mapRecords pwallet). \<forall>r\<in>set (vout (snd it)).
        search_reads ctx min_value extra_txouts pwallet it r \<longrightarrow>
        (if nType r = OUTPUT_RINGCT \<and> read_anon_index pwallet (fst it) r = None
         then strprintf ''Failed to get anon index for %s.%d'' [ArgHash (fst it), ArgInt (uint (out_n r))]
                \<in> set (res_warnings res)
         else frozen_unspendable ctx max_frozen_output_spendable pwallet (fst it) r \<or>
              (fst it, ucast (out_n r)) \<in> set extra_txouts \<longrightarrow>
              (fst it, ucast (out_n r)) \<in> set (res_top_level res)))"

text \<open>
  The invariants of the walk. A traced output has a blinding factor only when one is known;
  a state grows into another when it keeps its warnings, its transactions and its
  outputs; an outpoint is covered in a state when the walk from it reports there. A call
  of \<^verbatim>\<open>traceFrozenPrevout\<close> takes a state to one it grows into, in which every output it has
  recorded is covered and is one the edges reach from the outpoint of the call; within the
  call, the outpoint itself is recorded before its inputs are covered in every wallet, and
  a wallet is done when its visit has reported and the inputs of its record are covered.
  The filling in keeps the transactions of the map, and each output it adds is filled from
  a record.
\<close>

definition blinds_null :: "WalletContext \<Rightarrow> trace_state \<Rightarrow> bool" where
  "blinds_null ctx st =
     (\<forall>op o'. output_of_trace st op = Some o' \<longrightarrow> m_blinding_factor o' \<noteq> 0 \<longrightarrow> blind_known ctx op)"

definition walk_grows :: "trace_state \<Rightarrow> trace_state \<Rightarrow> bool" where
  "walk_grows st st' =
     (set (warnings st) \<subseteq> set (warnings st') \<and>
      (\<forall>h. already_entered st h \<longrightarrow> already_entered st' h) \<and>
      (\<forall>op. already_traced st op \<longrightarrow> already_traced st' op))"

definition walk_covered :: "WalletContext \<Rightarrow> trace_state \<Rightarrow> COutPoint \<Rightarrow> bool" where
  "walk_covered ctx st op =
     walk_reports ctx (set (warnings st)) (already_entered st) (already_traced st) op"

definition walk_step :: "WalletContext \<Rightarrow> trace_state \<Rightarrow> trace_state \<Rightarrow> bool" where
  "walk_step ctx st st' =
     (walk_grows st st' \<and> blinds_null ctx st' \<and>
      (\<forall>op'. already_traced st' op' \<longrightarrow> already_traced st op' \<or> walk_covered ctx st' op'))"

definition walk_reached :: "WalletContext \<Rightarrow> COutPoint \<Rightarrow> trace_state \<Rightarrow> trace_state \<Rightarrow> bool" where
  "walk_reached ctx op st st' =
     (\<forall>op'. already_traced st' op' \<longrightarrow> already_traced st op' \<or> (input_edge ctx)\<^sup>*\<^sup>* op op')"

definition walk_frame :: "WalletContext \<Rightarrow> trace_state \<Rightarrow> COutPoint \<Rightarrow> trace_state \<Rightarrow> bool" where
  "walk_frame ctx st op s =
     (walk_grows st s \<and> walk_reached ctx op st s \<and> blinds_null ctx s \<and>
      (\<forall>op'. already_traced s op' \<longrightarrow> already_traced st op' \<or> walk_covered ctx s op' \<or> op' = op))"

definition wallet_done :: "WalletContext \<Rightarrow> trace_state \<Rightarrow> CHDWallet \<Rightarrow> COutPoint \<Rightarrow> bool" where
  "wallet_done ctx s pwallet op =
     (wallet_reports ctx (set (warnings s)) (already_entered s) (already_traced s) pwallet op \<and>
      (\<forall>rtx op_in. map_of (mapRecords pwallet) (op_hash op) = Some rtx \<and>
         input_type_of rtx \<noteq> OUTPUT_STANDARD \<and> op_in \<in> set (vin rtx) \<longrightarrow> walk_covered ctx s op_in))"

definition fill_inv :: "WalletContext \<Rightarrow> trace_state \<Rightarrow> trace_state \<Rightarrow> bool" where
  "fill_inv ctx st s =
     (walk_grows st s \<and> (\<forall>h. (traced_txs s h = None) = (traced_txs st h = None)) \<and>
      (\<forall>op. already_traced s op \<longrightarrow> already_traced st op \<or> filled_from ctx (set (warnings s)) op))"

text \<open>
  Example data: a wallet of four records. Transaction 4 spends the outputs \<open>(1, 0)\<close>,
  \<open>(2, 0)\<close> and \<open>(3, 5)\<close> and has two frozen outputs; transaction 1 has two anonymous
  outputs, the second below the minimum value; transactions 2 and 3 have one blinded output
  each, below the minimum value, and no output of index 5. The stored transactions of 2 and
  3 are missing; that of 1 and 4 is readable, with no blinding factor; no link of a public
  key is readable.
\<close>

definition warned_stx :: CStoredTransaction where
  "warned_stx = \<lparr>tx_vpout = (\<lambda>i. \<lparr>txout_type = OUTPUT_RINGCT, txout_pk = []\<rparr>), vBlinds = []\<rparr>"

definition warned_records :: "(uint256 \<times> CTransactionRecord) list" where
  "warned_records =
     [(1, blind_in_record 10 [] [owned_anon_output 0 50000, owned_anon_output 1 5000]),
      (2, blind_in_record 10 [] [owned_blind_output 0 5000]),
      (3, blind_in_record 10 [] [owned_blind_output 0 5000]),
      (4, blind_in_record 10 [(1, 0), (2, 0), (3, 5)]
            [owned_blind_output 0 50000, owned_blind_output 1 50000])]"

definition warned_wallet :: CHDWallet where
  "warned_wallet =
     (plain_wallet warned_records)
       \<lparr>ReadStoredTx := (\<lambda>txid. if txid = 2 \<or> txid = 3 then None else Some warned_stx)\<rparr>"

definition warned_context :: WalletContext where
  "warned_context = frozen_context [warned_wallet]"

section \<open>Record totals and times\<close>

lemma fold_add_nValue:
  "fold (\<lambda>r nTotal. nTotal + nValue r) rs acc = acc + sum_list (map nValue rs)"
  by (induction rs arbitrary: acc) (simp_all add: add.assoc)

lemma sint_sum_list_word:
  "sint (sum_list (map f rs) :: 64 word) = signed_take_bit 63 (sum_list (map (\<lambda>r. sint (f r)) rs))"
proof -
  have "(sum_list (map f rs) :: 64 word) = word_of_int (sum_list (map (\<lambda>r. sint (f r)) rs))"
    by (induction rs) simp_all
  then show ?thesis
    by (simp add: signed_of_int)
qed

text \<open>
  C7. \<open>TotalOutput\<close> is the sum of \<open>nValue\<close> over all output records of the transaction
  record, in 64-bit arithmetic: read as signed numbers, the total is the sum of the signed
  values, reduced to 64 bits. No value is treated apart, so a record whose value is the
  sentinel -1 adds -1 to the total.
\<close>

theorem TotalOutput_sums_all_nValue:
  "TotalOutput rtx = sum_list (map nValue (vout rtx)) \<and>
   sint (TotalOutput rtx) = signed_take_bit 63 (sum_list (map (\<lambda>r. sint (nValue r)) (vout rtx))) \<and>
   TotalOutput (rtx\<lparr>vout := vout rtx @ [r\<lparr>nValue := - 1\<rparr>]\<rparr>) = TotalOutput rtx - 1"
  unfolding TotalOutput_def fold_add_nValue
  by (simp add: sint_sum_list_word)

lemma sint_std_min: "sint (std_min a b) = min (sint a) (sint b)"
  by (simp add: std_min_def word_sless_alt min_def)

text \<open>
  C8. The wallet time of a transaction record is the smaller of the receipt time and the
  block time when the record is confirmed (its block hash is neither null nor the abandon
  hash, and its index in the block is not negative), and the receipt time otherwise.
\<close>

theorem GetTxTime_confirmed_min_else_received:
  "sint (GetTxTime ABANDON_HASH rtx) =
     (if blockHash rtx \<noteq> 0 \<and> blockHash rtx \<noteq> ABANDON_HASH \<and> 0 \<le> sint (nIndex rtx)
      then min (sint (nTimeReceived rtx)) (sint (nBlockTime rtx))
      else sint (nTimeReceived rtx))"
  by (simp add: GetTxTime_def HashUnset_def sint_std_min word_sless_alt)

section \<open>The closing blinding factor\<close>

lemma scalar_of_b32_snoc: "scalar_of_b32 (bs @ [b]) = scalar_of_b32 bs * 256 + unat b"
  by (simp add: scalar_of_b32_def)

lemma length_b32_of_scalar: "length (b32_of_scalar len k) = len"
  by (induction len arbitrary: k) simp_all

lemma scalar_of_b32_of_scalar: "scalar_of_b32 (b32_of_scalar len k) = k mod 256 ^ len"
proof (induction len arbitrary: k)
  case 0
  show ?case by (simp add: scalar_of_b32_def)
next
  case (Suc len)
  have byte: "unat (of_nat (k mod 256) :: 8 word) = k mod 256"
    by (simp add: unat_of_nat)
  have "scalar_of_b32 (b32_of_scalar (Suc len) k) = (k div 256 mod 256 ^ len) * 256 + k mod 256"
    by (simp add: scalar_of_b32_snoc Suc.IH byte)
  also have "\<dots> = k mod 256 ^ Suc len"
    by (simp add: mod_mult2_eq)
  finally show ?case .
qed

lemma curve_order_bounds: "0 < curve_order" "curve_order \<le> 256 ^ 32"
  by (simp_all add: curve_order_def)

lemma read_blinds_valid:
  "\<forall>s\<in>set ss. is_blind_scalar s \<Longrightarrow> read_blinds ss = Inr (map (\<lambda>s. SetHex (the s)) ss)"
  by (induction ss) (auto simp: is_blind_scalar_def split: option.splits)

lemma scalar_of_read_blind:
  "\<forall>s\<in>set ss. is_blind_scalar s \<Longrightarrow>
     map scalar_of_b32 (map (\<lambda>s. SetHex (the s)) ss) = map blind_scalar ss"
  by (induction ss) (auto simp: is_blind_scalar_def blind_scalar_def split: option.splits)

lemma no_overflow_of_valid:
  "\<forall>s\<in>set ss. is_blind_scalar s \<Longrightarrow>
     \<not> list_ex (\<lambda>b. curve_order \<le> scalar_of_b32 b) (map (\<lambda>s. SetHex (the s)) ss)"
  by (induction ss) (auto simp: is_blind_scalar_def split: option.splits)

lemma closing_scalar_balances:
  fixes A B N :: nat
  assumes "0 < N"
  shows "(B + nat ((int A - int B) mod int N)) mod N = A mod N"
proof -
  have nn: "0 \<le> (int A - int B) mod int N"
    using assms by simp
  have "int ((B + nat ((int A - int B) mod int N)) mod N)
      = (int B + (int A - int B) mod int N) mod int N"
    using nn by (simp add: zmod_int)
  also have "\<dots> = (int B + (int A - int B)) mod int N"
    by (simp add: mod_add_right_eq)
  also have "\<dots> = int (A mod N)"
    by (simp add: zmod_int)
  finally show ?thesis
    by (simp only: int_int_eq)
qed

lemma scalar_of_b32_zeros: "scalar_of_b32 (replicate k 0 @ bs) = scalar_of_b32 bs"
  by (induction k) (simp_all add: scalar_of_b32_def)

lemma is_blind_scalar_small:
  "unat b < curve_order \<Longrightarrow> is_blind_scalar (Some (b # replicate 31 0))"
  by (simp add: is_blind_scalar_def SetHex_def scalar_of_b32_zeros) (simp add: scalar_of_b32_def)

text \<open>
  C2, as the code has it. The RPC refuses more output blinds than input blinds: one input
  blind and two output blinds, each of 32 bytes, give an error and no scalar.
\<close>

theorem closing_blind_more_outputs_counterexample:
  "generatematchingblindfactor [Some (7 # replicate 31 0)] [Some (3 # replicate 31 0), Some (2 # replicate 31 0)] =
     Inl (JSONRPCError RPC_INVALID_PARAMETER
       (strprintf ''Outputs should be at least one element smaller than the inputs array.'' []))"
  by (simp add: generatematchingblindfactor_def)

text \<open>
  C2, amended. For non-empty lists of input and output blinding factors with at most as
  many outputs as inputs, each entry 32 bytes that are a scalar below the curve order,
  \<open>generatematchingblindfactor\<close> returns 32 bytes that are such a scalar, and with it
  appended to the output blinds the sum of the input blinds equals the sum of the output
  blinds modulo the curve order.
\<close>

theorem closing_blind_balances:
  assumes "inputs \<noteq> []" and "outputs \<noteq> []" and "length outputs \<le> length inputs"
    and "\<forall>s\<in>set (inputs @ outputs). is_blind_scalar s"
  shows "\<exists>final. generatematchingblindfactor inputs outputs = Inr final \<and>
           length final = 32 \<and> is_blind_scalar (Some final) \<and>
           sum_list (map blind_scalar inputs) mod curve_order =
           sum_list (map blind_scalar (outputs @ [Some final])) mod curve_order"
proof -
  define A where "A = sum_list (map blind_scalar inputs)"
  define B where "B = sum_list (map blind_scalar outputs)"
  define r where "r = nat ((int A - int B) mod int curve_order)"
  define vp where "vp = map (\<lambda>s. SetHex (the s)) (inputs @ outputs)"
  have rb: "read_blinds (inputs @ outputs) = Inr vp"
    unfolding vp_def using assms(4) by (rule read_blinds_valid)
  have sc: "map scalar_of_b32 vp = map blind_scalar (inputs @ outputs)"
    unfolding vp_def using assms(4) by (rule scalar_of_read_blind)
  have pos: "sum_list (map scalar_of_b32 (take (length inputs) vp)) = A"
    unfolding A_def take_map [symmetric] sc by simp
  have neg: "sum_list (map scalar_of_b32 (drop (length inputs) vp)) = B"
    unfolding B_def drop_map [symmetric] sc by simp
  have nov: "\<not> list_ex (\<lambda>b. curve_order \<le> scalar_of_b32 b) vp"
    unfolding vp_def using assms(4) by (rule no_overflow_of_valid)
  have bs: "secp256k1_pedersen_blind_sum vp (length inputs) = Some (b32_of_scalar 32 r)"
    using nov by (simp add: secp256k1_pedersen_blind_sum_def pos neg r_def)
  have res: "generatematchingblindfactor inputs outputs = Inr (ToString (b32_of_scalar 32 r))"
    using assms(1,2,3) by (simp add: generatematchingblindfactor_def rb bs Suc_le_eq)
  have r_lt: "r < curve_order"
    using curve_order_bounds(1) by (simp add: r_def nat_less_iff)
  have sb: "scalar_of_b32 (b32_of_scalar 32 r) = r"
    unfolding scalar_of_b32_of_scalar
    by (rule mod_less) (rule less_le_trans [OF r_lt curve_order_bounds(2)])
  have fs: "blind_scalar (Some (ToString (b32_of_scalar 32 r))) = r"
    by (simp add: blind_scalar_def SetHex_def ToString_def sb)
  have valid: "is_blind_scalar (Some (ToString (b32_of_scalar 32 r)))"
    using r_lt
    by (simp add: is_blind_scalar_def SetHex_def ToString_def sb length_b32_of_scalar)
  have bal: "A mod curve_order = (B + r) mod curve_order"
    unfolding r_def using closing_scalar_balances [OF curve_order_bounds(1), of B A] by simp
  have len: "length (ToString (b32_of_scalar 32 r)) = 32"
    by (simp add: ToString_def length_b32_of_scalar)
  show ?thesis
    using res valid bal len
    by (intro exI [of _ "ToString (b32_of_scalar 32 r)"]) (simp add: fs A_def B_def)
qed

theorem closing_blind_balances_witness:
  "\<exists>final. generatematchingblindfactor [Some (7 # replicate 31 0), Some (5 # replicate 31 0)] [Some (3 # replicate 31 0)] = Inr final \<and>
           length final = 32 \<and> is_blind_scalar (Some final) \<and>
           sum_list (map blind_scalar [Some (7 # replicate 31 0), Some (5 # replicate 31 0)]) mod curve_order =
           sum_list (map blind_scalar ([Some (3 # replicate 31 0)] @ [Some final])) mod curve_order"
proof -
  have valid: "\<forall>s\<in>set ([Some (7 # replicate 31 0), Some (5 # replicate 31 0)] @ [Some (3 # replicate 31 0)]). is_blind_scalar s"
    by (simp add: is_blind_scalar_small curve_order_def)
  show ?thesis
    by (rule closing_blind_balances [OF _ _ _ valid]) simp_all
qed

section \<open>Verifying a commitment\<close>

text \<open>
  C3. When the commitment primitive computes the 33 bytes \<open>c\<close> from a 32-byte blinding
  factor and an amount, \<open>verifycommitment\<close> of \<open>c\<close>, that blinding factor and that amount
  returns true, and of any other 33 bytes \<open>c'\<close> it throws the mismatch error. Whenever
  \<open>verifycommitment\<close> returns, it returns true and the commitment supplied is, byte for
  byte, the one recomputed from the blinding factor and the amount supplied.
\<close>

theorem verifycommitment_true_iff_recomputed:
  "(pedersen_commit blind v = Some c \<and> length c = 33 \<and> length blind = 32 \<longrightarrow>
      verifycommitment pedersen_commit (Some c) (Some (rev blind)) (Inr v) = Inr True \<and>
      (\<forall>c'. length c' = 33 \<and> c' \<noteq> c \<longrightarrow>
         verifycommitment pedersen_commit (Some c') (Some (rev blind)) (Inr v) =
           Inl (JSONRPCError RPC_MISC_ERROR (strprintf ''Mismatched commitment, expected %s'' [ArgBytes c])))) \<and>
   (verifycommitment pedersen_commit p0 p1 p2 = Inr rv \<longrightarrow>
      rv \<and> (\<exists>vch bs amount commitment. p0 = Some vch \<and> length vch = 33 \<and> p1 = Some bs \<and> length bs = 32 \<and>
         p2 = Inr amount \<and> pedersen_commit (SetHex bs) amount = Some commitment \<and>
         vch = take 33 commitment))"
  by (auto simp: verifycommitment_def SetHex_def split: option.splits sum.splits if_splits)

theorem verifycommitment_true_iff_recomputed_witness:
  "verifycommitment (\<lambda>b v. Some (b @ [ucast v])) (Some (replicate 32 2 @ [5])) (Some (rev (replicate 32 2))) (Inr 5) = Inr True \<and>
   verifycommitment (\<lambda>b v. Some (b @ [ucast v])) (Some (replicate 32 2 @ [6])) (Some (rev (replicate 32 2))) (Inr 5) =
           Inl (JSONRPCError RPC_MISC_ERROR (strprintf ''Mismatched commitment, expected %s'' [ArgBytes (replicate 32 2 @ [5])]))"
proof -
  have h: "(\<lambda>b v. Some (b @ [ucast v])) (replicate 32 (2 :: 8 word)) (5 :: 64 word) = Some (replicate 32 2 @ [5])
      \<and> length (replicate 32 (2 :: 8 word) @ [5]) = 33 \<and> length (replicate 32 (2 :: 8 word)) = 32"
    by simp
  have m: "length (replicate 32 (2 :: 8 word) @ [6]) = 33 \<and> replicate 32 (2 :: 8 word) @ [6] \<noteq> replicate 32 2 @ [5]"
    by simp
  from verifycommitment_true_iff_recomputed [of "\<lambda>b v. Some (b @ [ucast v])" "replicate 32 2" 5 "replicate 32 2 @ [5]"] h
  have a: "verifycommitment (\<lambda>b v. Some (b @ [ucast v])) (Some (replicate 32 2 @ [5])) (Some (rev (replicate 32 2))) (Inr 5) = Inr True"
    and b: "\<forall>c'. length c' = 33 \<and> c' \<noteq> replicate 32 2 @ [5] \<longrightarrow>
         verifycommitment (\<lambda>b v. Some (b @ [ucast v])) (Some c') (Some (rev (replicate 32 2))) (Inr 5) =
           Inl (JSONRPCError RPC_MISC_ERROR (strprintf ''Mismatched commitment, expected %s'' [ArgBytes (replicate 32 2 @ [5])]))"
    by blast+
  from b m show ?thesis using a by blast
qed

section \<open>The form of a range proof\<close>

text \<open>
  C9. Rewinding the range proof of an output with a 32-byte nonce, the code looks at the
  length of the proof only: a proof shorter than 1000 bytes is rewound as a bulletproof
  (by \<open>bulletproof_rewind\<close>, whose failure is the error of the bulletproof rewind), and a
  proof of 1000 bytes or more as a legacy range proof (by \<open>rangeproof_rewind\<close>).
\<close>

theorem rewind_form_selected_by_proof_length:
  "fundrawtransactionfrom_rewind bulletproof_rewind ExtractNarration rangeproof_rewind
       n_out (Some (Some bs)) (Some proof) commitment =
     (if length bs \<noteq> 32
      then Inl (JSONRPCError RPC_INVALID_PARAMETER
             (strprintf ''Nonce must be 32 bytes and hex encoded.'' []))
      else if length proof < 1000
      then (case bulletproof_rewind proof commitment (SetHex bs) of
              None \<Rightarrow> Inl (JSONRPCError RPC_MISC_ERROR
                        (strprintf ''secp256k1_bulletproof_rangeproof_rewind failed, output %d.'' [ArgInt n_out]))
            | Some (amountOut, blindOut) \<Rightarrow>
                Inr (Some \<lparr>rw_nonce = SetHex bs, rw_blind = blindOut, rw_amount = amountOut,
                           rw_narration = ExtractNarration (SetHex bs)\<rparr>))
      else (case rangeproof_rewind (SetHex bs) commitment proof of
              None \<Rightarrow> Inl (JSONRPCError RPC_MISC_ERROR
                        (strprintf ''secp256k1_rangeproof_rewind failed, output %d.'' [ArgInt n_out]))
            | Some (blindOut, amountOut, msg) \<Rightarrow>
                Inr (Some \<lparr>rw_nonce = SetHex bs, rw_blind = blindOut, rw_amount = amountOut,
                           rw_narration = takeWhile (\<lambda>b. b \<noteq> 0) (butlast msg)\<rparr>)))"
  by (simp add: fundrawtransactionfrom_rewind_def rewind_bulletproof_def rewind_legacy_def
      split: option.split prod.split)

section \<open>Termination of the tracer\<close>

lemma already_traced_enter:
  "already_traced (enter_traced_tx pwallet rtx h st) op_trace = already_traced st op_trace"
  by (simp add: already_traced_def enter_traced_tx_def set_traced_tx_def traced_tx_def
      TracedTx_init_def Let_def split: option.split)

lemma blind_in_flag: "bit (16384 :: 16 word) (14::nat)" "\<not> bit (16384 :: 16 word) (15::nat)"
  by (simp_all add: bit_iff_odd_drop_bit drop_bit_eq_div)

lemma input_type_blind_in: "input_type_of (blind_in_record height ins outs) = OUTPUT_CT"
  by (simp add: input_type_of_def blind_in_record_def ORF_ANON_IN_def ORF_BLIND_IN_def blind_in_flag)

lemma cyclic_lookups:
  "GetWallets cyclic_context =
     [plain_wallet [(1, blind_in_record 10 [(2, 0)] [owned_blind_output 0 50000]),
                    (2, blind_in_record 10 [(1, 0)] [owned_blind_output 0 50000])]]"
  "map_of (mapRecords (plain_wallet records)) h = map_of records h"
  "vin (blind_in_record height ins outs) = ins"
  by (simp_all add: cyclic_context_def frozen_context_def plain_wallet_def blind_in_record_def)

text \<open>
  On the cyclic records a call of \<open>traceFrozenPrevout\<close> for either output, in a state in
  which neither output is recorded, does not return: the call for the one reaches the call
  for the other in such a state again, the output being recorded only after the inputs
  have been walked.
\<close>

lemma cyclic_never_returns:
  assumes ret: "traceFrozenPrevout ctx op_trace txid_spentby st = Some st'"
  shows "\<not> cyclic_open ctx op_trace st"
proof (rule traceFrozenPrevout.raw_induct
    [where P = "\<lambda>ctx op_trace txid_spentby st st'. \<not> cyclic_open ctx op_trace st", OF _ ret])
  fix f :: "WalletContext \<Rightarrow> COutPoint \<Rightarrow> uint256 \<Rightarrow> trace_state \<Rightarrow> trace_state option"
  fix ctx op_trace txid_spentby st st'
  assume IH: "\<And>c p t s y. f c p t s = Some y \<Longrightarrow> \<not> cyclic_open c p s"
  assume eq: "(if already_traced st op_trace then Some st
      else for_each
            (\<lambda>pwallet st.
                case map_of (mapRecords pwallet) (op_hash op_trace) of
                None \<Rightarrow> Some st
                | Some rtx \<Rightarrow>
                    Option.bind
                     (if input_type_of rtx \<noteq> OUTPUT_STANDARD
                      then for_each
                            (\<lambda>op_in st.
                                Option.bind (f ctx op_in (op_hash op_trace) st)
                                 (\<lambda>st. Some (push_input (op_hash op_trace) op_in st)))
                            (vin rtx)
                            (enter_traced_tx pwallet rtx (op_hash op_trace) st)
                      else Some (enter_traced_tx pwallet rtx (op_hash op_trace) st))
                     (\<lambda>st. Some (record_prevout pwallet rtx op_trace txid_spentby st)))
            (GetWallets ctx) st) = Some st'"
  show "\<not> cyclic_open ctx op_trace st"
  proof
    assume inv: "cyclic_open ctx op_trace st"
    have none: "f cyclic_context op_in h (enter_traced_tx pwallet rtx h' st) = None"
      if "op_in = (1, 0) \<or> op_in = (2, 0)" for op_in h pwallet rtx h'
    proof (cases "f cyclic_context op_in h (enter_traced_tx pwallet rtx h' st)")
      case None
      then show ?thesis .
    next
      case (Some y)
      from IH [OF Some] that inv show ?thesis
        by (simp add: cyclic_open_def already_traced_enter)
    qed
    from inv have "op_trace = (1, 0) \<or> op_trace = (2, 0)"
      by (simp add: cyclic_open_def)
    then show False
    proof
      assume op: "op_trace = (1, 0)"
      from eq inv show False
        by (simp add: cyclic_open_def op cyclic_lookups input_type_blind_in none)
    next
      assume op: "op_trace = (2, 0)"
      from eq inv show False
        by (simp add: cyclic_open_def op cyclic_lookups input_type_blind_in none)
    qed
  qed
qed

lemma cyclic_search:
  "search_frozen cyclic_context min_frozen_blinded_value 20000 [] =
     \<lparr>top_level = [(1, 0), (2, 0)], set_forced = [], total_traced = 100000, num_traced = 2,
      num_searched = 2, search_warnings = []\<rparr>"
  by code_simp

text \<open>
  C1, as the code has it. On the two records corrupted into a cycle the search finds both
  outputs frozen, and the trace of the first does not return: \<open>None\<close> is the result of a
  call that does not return.
\<close>

theorem trace_cycle_never_returns:
  "debugwallet_trace_frozen_outputs cyclic_context 20000 [] = None"
proof -
  have "traceFrozenPrevout cyclic_context (1, 0) 0 \<lparr>traced_txs = Map.empty, warnings = []\<rparr> = None"
  proof (cases "traceFrozenPrevout cyclic_context (1, 0) 0 \<lparr>traced_txs = Map.empty, warnings = []\<rparr>")
    case None
    then show ?thesis .
  next
    case (Some st')
    from cyclic_never_returns [OF Some] show ?thesis
      by (simp add: cyclic_open_def already_traced_def)
  qed
  moreover have "ensure_all_unlocked (GetWallets cyclic_context) = None"
    by (simp add: cyclic_context_def frozen_context_def plain_wallet_def)
  ultimately show ?thesis
    by (simp add: debugwallet_trace_frozen_outputs_def traceFrozenOutputs_def trace_top_level_def
        cyclic_search)
qed

lemma for_each_returns:
  assumes "\<And>x st. x \<in> set xs \<Longrightarrow> \<exists>st'. body x st = Some st'"
  shows "\<exists>st'. for_each body xs st = Some st'"
  using assms
proof (induction xs arbitrary: st)
  case Nil
  show ?case by simp
next
  case (Cons x xs)
  from Cons.prems [of x st] obtain st1 where b: "body x st = Some st1"
    by auto
  from Cons.IH [of st1] Cons.prems obtain st2 where "for_each body xs st1 = Some st2"
    by auto
  with b show ?case by simp
qed

lemma traceFrozenPrevout_returns:
  assumes ranked: "inputs_ranked rank ctx"
  shows "\<exists>st'. traceFrozenPrevout ctx op_trace txid_spentby st = Some st'"
proof (induction "rank (op_hash op_trace)" arbitrary: op_trace txid_spentby st rule: less_induct)
  case less
  have inner: "\<exists>st'. Option.bind (traceFrozenPrevout ctx op_in (op_hash op_trace) s)
                   (\<lambda>st. Some (push_input (op_hash op_trace) op_in st)) = Some st'"
    if "pwallet \<in> set (GetWallets ctx)" and "map_of (mapRecords pwallet) (op_hash op_trace) = Some rtx"
      and "op_in \<in> set (vin rtx)" for pwallet rtx op_in s
  proof -
    from that(2) have "(op_hash op_trace, rtx) \<in> set (mapRecords pwallet)"
      by (rule map_of_SomeD)
    with ranked that(1,3) have "rank (op_hash op_in) < rank (op_hash op_trace)"
      by (fastforce simp: inputs_ranked_def)
    from less [OF this, of "op_hash op_trace" s] show ?thesis
      by auto
  qed
  have body: "\<exists>st'. (case map_of (mapRecords pwallet) (op_hash op_trace) of
             None \<Rightarrow> Some s
           | Some rtx \<Rightarrow>
               Option.bind
                 (if input_type_of rtx \<noteq> OUTPUT_STANDARD
                  then for_each
                         (\<lambda>op_in st. Option.bind
                            (traceFrozenPrevout ctx op_in (op_hash op_trace) st)
                            (\<lambda>st. Some (push_input (op_hash op_trace) op_in st)))
                         (vin rtx) (enter_traced_tx pwallet rtx (op_hash op_trace) s)
                  else Some (enter_traced_tx pwallet rtx (op_hash op_trace) s))
                 (\<lambda>st. Some (record_prevout pwallet rtx op_trace txid_spentby st))) = Some st'"
    if w: "pwallet \<in> set (GetWallets ctx)" for pwallet s
  proof (cases "map_of (mapRecords pwallet) (op_hash op_trace)")
    case None
    then show ?thesis by simp
  next
    case (Some rtx)
    have "\<exists>st'. for_each
                         (\<lambda>op_in st. Option.bind
                            (traceFrozenPrevout ctx op_in (op_hash op_trace) st)
                            (\<lambda>st. Some (push_input (op_hash op_trace) op_in st)))
                         (vin rtx) (enter_traced_tx pwallet rtx (op_hash op_trace) s) = Some st'"
      by (rule for_each_returns) (rule inner [OF w Some])
    then show ?thesis
      using Some by auto
  qed
  show ?case
    unfolding traceFrozenPrevout.simps [of ctx op_trace txid_spentby st]
    using for_each_returns [of "GetWallets ctx", OF body] by simp
qed

lemma trace_top_level_returns:
  assumes "inputs_ranked rank ctx"
  shows "\<exists>st'. trace_top_level ctx s = Some st'"
  unfolding trace_top_level_def
proof (rule for_each_returns)
  fix op_top st
  from traceFrozenPrevout_returns [OF assms, of op_top 0 st]
  show "\<exists>st'. Option.bind (traceFrozenPrevout ctx op_top 0 st)
               (\<lambda>st. Some (mark_top_level (set_forced s) op_top st)) = Some st'"
    by auto
qed

text \<open>
  C1, amended. When the inputs of every record come from transactions of a smaller rank
  (the records form no cycle), every call of \<open>traceFrozenPrevout\<close> returns, and so does
  the trace \<open>traceFrozenOutputs\<close> drives, whatever the frozen outputs, the extra outputs
  and the state of the wallets: with an error thrown or with its result.
\<close>

theorem traceFrozenOutputs_returns_if_ranked:
  assumes "inputs_ranked rank ctx"
  shows "(\<exists>st'. traceFrozenPrevout ctx op_trace txid_spentby st = Some st') \<and>
         (\<exists>res. traceFrozenOutputs ctx min_value max_frozen_output_spendable uv_extra_outputs = Some res)"
proof (rule conjI)
  show "\<exists>st'. traceFrozenPrevout ctx op_trace txid_spentby st = Some st'"
    using assms by (rule traceFrozenPrevout_returns)
  show "\<exists>res. traceFrozenOutputs ctx min_value max_frozen_output_spendable uv_extra_outputs = Some res"
  proof (cases "case uv_extra_outputs of None \<Rightarrow> Inr [] | Some uvs \<Rightarrow> read_extra_outputs uvs []")
    case (Inl e)
    then show ?thesis
      by (simp add: traceFrozenOutputs_def)
  next
    case (Inr extra_txouts)
    show ?thesis
    proof (cases "ensure_all_unlocked (GetWallets ctx)")
      case (Some e)
      with Inr show ?thesis
        by (simp add: traceFrozenOutputs_def)
    next
      case None
      from trace_top_level_returns [OF assms]
      obtain st' where "trace_top_level ctx
          (search_frozen ctx min_value max_frozen_output_spendable extra_txouts) = Some st'"
        by blast
      with Inr None show ?thesis
        by (simp add: traceFrozenOutputs_def)
    qed
  qed
qed

lemma chain_ranked: "inputs_ranked unat chain_context"
  by (simp add: inputs_ranked_def chain_context_def frozen_context_def plain_wallet_def
      blind_in_record_def)

theorem traceFrozenOutputs_returns_if_ranked_witness:
  "inputs_ranked unat chain_context \<and>
   (\<exists>st'. traceFrozenPrevout chain_context (2, 0) 0 \<lparr>traced_txs = Map.empty, warnings = []\<rparr> = Some st') \<and>
   (\<exists>res. traceFrozenOutputs chain_context min_frozen_blinded_value 20000 None = Some res)"
  using traceFrozenOutputs_returns_if_ranked [OF chain_ranked] chain_ranked by blast

section \<open>The lock of the wallets\<close>

lemma read_extra_outputs_parsed:
  "\<forall>uvi\<in>set uvs. \<not> isl uvi \<Longrightarrow> \<exists>extra_txouts. read_extra_outputs uvs acc = Inr extra_txouts"
proof (induction uvs arbitrary: acc)
  case Nil
  show ?case by simp
next
  case (Cons uvi uvs)
  then show ?case
    by (cases uvi) simp_all
qed

lemma ensure_all_unlocked_first_locked:
  "\<forall>w\<in>set before. \<not> IsLocked w \<and> \<not> fUnlockForStakingOnly w \<Longrightarrow>
   IsLocked pwallet \<or> fUnlockForStakingOnly pwallet \<Longrightarrow>
   ensure_all_unlocked (before @ pwallet # after) =
     Some (JSONRPCError RPC_WALLET_UNLOCK_NEEDED (strprintf
        ''Error: Wallet %s is locked, please unlock all loaded wallets for this command.''
        [ArgStr (GetDisplayName pwallet)]))"
  by (induction before) auto

lemma ensure_all_unlocked_records:
  "ensure_all_unlocked (map (\<lambda>w. w\<lparr>mapRecords := recs w, ReadStoredTx := stxs w\<rparr>) ws) =
   ensure_all_unlocked ws"
  by (induction ws) simp_all

text \<open>
  C5, as the code has it. The entries of the array of extra outputs are checked before the
  wallets are: with a locked wallet and an entry that does not pass its type check, the
  error thrown is that of the entry and not the wallet-locked error.
\<close>

theorem locked_trace_malformed_extra_counterexample:
  "traceFrozenOutputs locked_context min_frozen_blinded_value 20000
     (Some [Inl (JSONRPCError RPC_TYPE_ERROR (strprintf ''Missing %s'' [ArgStr ''tx'']))]) =
   Some (Inl (JSONRPCError RPC_TYPE_ERROR (strprintf ''Missing %s'' [ArgStr ''tx''])))"
  by (simp add: traceFrozenOutputs_def)

text \<open>
  C5, amended. When every entry of the array of extra outputs is read without an error and
  a loaded wallet is locked, or unlocked for staking only, \<open>traceFrozenOutputs\<close> throws the
  error \<^verbatim>\<open>RPC_WALLET_UNLOCK_NEEDED\<close> that names the first such wallet in the order of the
  loaded wallets: the wallet \<open>pwallet\<close> before which every wallet is unlocked. It does so
  before any record is read: with the records and the stored transactions of the wallets
  replaced by any others, the outcome is the same. The example has an unlocked wallet with
  cyclic records, on which a walk would not return, followed by the locked wallet \<open>a\<close> and
  by the wallet \<open>b\<close> unlocked for staking only; the error names \<open>a\<close>.
\<close>

theorem locked_wallet_aborts_trace:
  assumes "\<forall>uvs. uv_extra_outputs = Some uvs \<longrightarrow> (\<forall>uvi\<in>set uvs. \<not> isl uvi)"
    and "GetWallets ctx = before @ pwallet # after"
    and "\<forall>w\<in>set before. \<not> IsLocked w \<and> \<not> fUnlockForStakingOnly w"
    and "IsLocked pwallet \<or> fUnlockForStakingOnly pwallet"
  shows "traceFrozenOutputs ctx min_value max_frozen_output_spendable uv_extra_outputs =
           Some (Inl (JSONRPCError RPC_WALLET_UNLOCK_NEEDED (strprintf
             ''Error: Wallet %s is locked, please unlock all loaded wallets for this command.''
             [ArgStr (GetDisplayName pwallet)]))) \<and>
         traceFrozenOutputs
           (ctx\<lparr>GetWallets := map (\<lambda>w. w\<lparr>mapRecords := recs w, ReadStoredTx := stxs w\<rparr>) (GetWallets ctx)\<rparr>)
           min_value max_frozen_output_spendable uv_extra_outputs =
         traceFrozenOutputs ctx min_value max_frozen_output_spendable uv_extra_outputs"
proof -
  from assms(1) obtain extra_txouts where parsed:
    "(case uv_extra_outputs of None \<Rightarrow> Inr [] | Some uvs \<Rightarrow> read_extra_outputs uvs []) = Inr extra_txouts"
    using read_extra_outputs_parsed [of _ "[]"] by (cases uv_extra_outputs) auto
  have e: "ensure_all_unlocked (GetWallets ctx) = Some (JSONRPCError RPC_WALLET_UNLOCK_NEEDED (strprintf
        ''Error: Wallet %s is locked, please unlock all loaded wallets for this command.''
        [ArgStr (GetDisplayName pwallet)]))"
    unfolding assms(2) by (rule ensure_all_unlocked_first_locked [OF assms(3) assms(4)])
  have "traceFrozenOutputs ctx min_value max_frozen_output_spendable uv_extra_outputs =
             Some (Inl (JSONRPCError RPC_WALLET_UNLOCK_NEEDED (strprintf
               ''Error: Wallet %s is locked, please unlock all loaded wallets for this command.''
               [ArgStr (GetDisplayName pwallet)])))"
    by (simp add: traceFrozenOutputs_def parsed e)
  moreover have "traceFrozenOutputs
           (ctx\<lparr>GetWallets := map (\<lambda>w. w\<lparr>mapRecords := recs w, ReadStoredTx := stxs w\<rparr>) (GetWallets ctx)\<rparr>)
           min_value max_frozen_output_spendable uv_extra_outputs =
         traceFrozenOutputs ctx min_value max_frozen_output_spendable uv_extra_outputs"
    by (simp add: traceFrozenOutputs_def parsed e ensure_all_unlocked_records)
  ultimately show ?thesis
    by blast
qed

theorem locked_wallet_aborts_trace_witness:
  "traceFrozenOutputs two_locked_context min_frozen_blinded_value 20000 (Some [Inr (1, 0)]) =
     Some (Inl (JSONRPCError RPC_WALLET_UNLOCK_NEEDED (strprintf
       ''Error: Wallet %s is locked, please unlock all loaded wallets for this command.''
       [ArgStr ''a''])))"
proof -
  have a: "\<forall>uvs. Some [Inr (1, 0) :: rpc_error + COutPoint] = Some uvs \<longrightarrow> (\<forall>uvi\<in>set uvs. \<not> isl uvi)"
    by simp
  have b: "GetWallets two_locked_context =
      [plain_wallet
          [(1, blind_in_record 10 [(2, 0)] [owned_blind_output 0 50000]),
           (2, blind_in_record 10 [(1, 0)] [owned_blind_output 0 50000])]] @
      (plain_wallet [])\<lparr>GetDisplayName := ''a'', IsLocked := True\<rparr> #
      [(plain_wallet [])\<lparr>GetDisplayName := ''b'', fUnlockForStakingOnly := True\<rparr>]"
    by (simp add: two_locked_context_def frozen_context_def)
  have c: "\<forall>w\<in>set [plain_wallet
          [(1, blind_in_record 10 [(2, 0)] [owned_blind_output 0 50000]),
           (2, blind_in_record 10 [(1, 0)] [owned_blind_output 0 50000])]].
        \<not> IsLocked w \<and> \<not> fUnlockForStakingOnly w"
    by (simp add: plain_wallet_def)
  have d: "IsLocked ((plain_wallet [])\<lparr>GetDisplayName := ''a'', IsLocked := True\<rparr>) \<or>
      fUnlockForStakingOnly ((plain_wallet [])\<lparr>GetDisplayName := ''a'', IsLocked := True\<rparr>)"
    by simp
  from locked_wallet_aborts_trace [OF a b c d, of min_frozen_blinded_value 20000, THEN conjunct1]
  show ?thesis
    by simp
qed

section \<open>Failures of the tracer that become warnings\<close>

lemma record_prevout_no_stored_tx:
  assumes "GetOutput rtx (sint (op_n op_trace)) = Some r"
    and "ReadStoredTx pwallet (op_hash op_trace) = None"
  shows "record_prevout pwallet rtx op_trace txid_spentby st =
           push_warning (strprintf ''ReadStoredTx failed %s'' [ArgHash (op_hash op_trace)]) st"
  using assms by (simp add: record_prevout_def)

lemma warnings_set_traced_tx [simp]: "warnings (set_traced_tx h t st) = warnings st"
  by (simp add: set_traced_tx_def)

lemma warnings_push_warning [simp]: "warnings (push_warning m st) = warnings st @ [m]"
  by (simp add: push_warning_def)

lemma traced_tx_set_traced_tx [simp]: "traced_tx (set_traced_tx h t st) h = t"
  by (simp add: set_traced_tx_def traced_tx_def)

lemma traced_txs_set_traced_tx [simp]: "traced_txs (set_traced_tx h t st) h = Some t"
  by (simp add: set_traced_tx_def)

lemma record_prevout_no_link:
  assumes "GetOutput rtx (sint (op_n op_trace)) = Some r"
    and "ReadStoredTx pwallet (op_hash op_trace) = Some stx"
    and "nType r = OUTPUT_RINGCT"
    and "readRCTOutputLink pwallet (txout_pk (tx_vpout stx (unat (out_n r)))) = None"
  shows "strprintf ''ReadRCTOutputLink failed %s'' [ArgOutPoint op_trace]
           \<in> set (warnings (record_prevout pwallet rtx op_trace txid_spentby st)) \<and>
         m_outputs (traced_tx (record_prevout pwallet rtx op_trace txid_spentby st) (op_hash op_trace))
           (uint (out_n r)) \<noteq> None"
  using assms by (simp add: record_prevout_def Let_def)

lemma fill_record_no_stored_tx:
  assumes "traced_txs st (fst it) \<noteq> None" and "ReadStoredTx pwallet (fst it) = None"
  shows "fill_record pwallet it st =
           push_warning (strprintf ''ReadStoredTx failed %s'' [ArgHash (fst it)]) st"
  using assms by (auto simp: fill_record_def split: option.split)

lemma fill_output_no_link:
  assumes "nType r = OUTPUT_RINGCT" and "bit (nFlags r) ORF_OWNED"
    and "m_outputs (traced_tx st txid) (uint (out_n r)) = None"
    and "readRCTOutputLink pwallet (txout_pk (tx_vpout stx (unat (out_n r)))) = None"
  shows "strprintf ''ReadRCTOutputLink failed %s %d'' [ArgHash txid, ArgInt (uint (out_n r))]
           \<in> set (warnings (fill_output pwallet stx txid r st)) \<and>
         m_outputs (traced_tx (fill_output pwallet stx txid r st) txid) (uint (out_n r)) \<noteq> None"
  using assms by (simp add: fill_output_def Let_def)

lemma fill_output_no_blind:
  assumes "nType r = OUTPUT_RINGCT \<or> nType r = OUTPUT_CT" and "bit (nFlags r) ORF_OWNED"
    and "m_outputs (traced_tx st txid) (uint (out_n r)) = None"
    and "GetBlind stx (uint (out_n r)) = None"
  shows "strprintf ''GetBlind failed %s %d'' [ArgHash txid, ArgInt (uint (out_n r))]
           \<in> set (warnings (fill_output pwallet stx txid r st)) \<and>
         m_outputs (traced_tx (fill_output pwallet stx txid r st) txid) (uint (out_n r)) \<noteq> None"
  using assms by (auto simp: fill_output_def Let_def)

lemma warnings_enter_traced_tx [simp]: "warnings (enter_traced_tx pwallet rtx h st) = warnings st"
  by (simp add: enter_traced_tx_def Let_def)

lemma warnings_push_input [simp]: "warnings (push_input h op_in st) = warnings st"
  by (simp add: push_input_def Let_def)

lemma warnings_mark_top_level [simp]: "warnings (mark_top_level forced op_top st) = warnings st"
  by (simp add: mark_top_level_def Let_def)

lemma warnings_record_prevout:
  "prefix (warnings st) (warnings (record_prevout pwallet rtx op_trace txid_spentby st))"
  by (simp add: record_prevout_def Let_def split: option.split)

lemma warnings_fill_output: "prefix (warnings st) (warnings (fill_output pwallet stx txid r st))"
  by (simp add: fill_output_def Let_def)

lemma chain_unlocked: "ensure_all_unlocked (GetWallets chain_context) = None"
  by (simp add: chain_context_def frozen_context_def plain_wallet_def)

lemma chain_trace_returns:
  "\<exists>res. debugwallet_trace_frozen_outputs chain_context 20000 [] = Some (Inr res)"
proof -
  have ranked: "inputs_ranked unat chain_context"
    by (rule chain_ranked)
  from trace_top_level_returns [OF ranked] obtain st where
    "trace_top_level chain_context (search_frozen chain_context min_frozen_blinded_value 20000 []) = Some st"
    by blast
  then show ?thesis
    by (simp add: debugwallet_trace_frozen_outputs_def traceFrozenOutputs_def chain_unlocked)
qed

lemma example_lookups:
  "GetOutput (blind_in_record height ins [owned_blind_output 0 v]) 0 = Some (owned_blind_output 0 v)"
  "GetOutput (blind_in_record height ins [owned_anon_output 0 v]) 0 = Some (owned_anon_output 0 v)"
  "ReadStoredTx (plain_wallet records) h = None"
  "ReadStoredTx anon_stored_wallet h =
     Some \<lparr>tx_vpout = (\<lambda>i. \<lparr>txout_type = OUTPUT_RINGCT, txout_pk = []\<rparr>), vBlinds = []\<rparr>"
  "readRCTOutputLink anon_stored_wallet pk = None"
  "IsSpent (plain_wallet records) h j = False"
  "nType (owned_anon_output i v) = OUTPUT_RINGCT"
  "out_n (owned_anon_output i v) = i"
  "nValue (owned_anon_output i v) = v"
  "bit (nFlags (owned_anon_output i v)) ORF_OWNED"
  by (simp_all add: GetOutput_def blind_in_record_def owned_blind_output_def owned_anon_output_def
      plain_wallet_def anon_stored_wallet_def ORF_OWNED_def)

section \<open>The bounds of a frozen candidate\<close>

lemma fold_invariant:
  assumes "\<And>x s. x \<in> set xs \<Longrightarrow> P s \<Longrightarrow> P (f x s)" and "P s"
  shows "P (fold f xs s)"
  using assms
proof (induction xs arbitrary: s)
  case Nil
  then show ?case by simp
next
  case (Cons x xs)
  have "P (f x s)" using Cons.prems by simp
  then show ?case using Cons.IH [of "f x s"] Cons.prems(1) by simp
qed

lemma set_std_set_insert [simp]: "set (std_set_insert x xs) = insert x (set xs)"
  by (simp add: std_set_insert_def set_insort_key insert_absorb)

lemma read_extra_outputs_set:
  "read_extra_outputs uvs acc = Inr extra_txouts \<Longrightarrow>
     set extra_txouts = set acc \<union> {op_extra. Inr op_extra \<in> set uvs}"
proof (induction uvs arbitrary: acc)
  case Nil
  then show ?case by simp
next
  case (Cons uvi uvs)
  show ?case
  proof (cases uvi)
    case (Inl e)
    with Cons.prems show ?thesis by simp
  next
    case (Inr op_extra)
    with Cons.prems have "read_extra_outputs uvs (std_set_insert op_extra acc) = Inr extra_txouts"
      by simp
    from Cons.IH [OF this] Inr show ?thesis by auto
  qed
qed

lemma list_output_entries:
  assumes "e \<in> set (frozen_outputs (list_output ctx mx pwallet txid r l))"
  shows "e \<in> set (frozen_outputs l) \<or>
         (fo_txid e = txid \<and> fo_n e = out_n r \<and> fo_amount e = nValue r \<and>
          min_frozen_blinded_value \<le>s nValue r)"
  using assms
  by (auto simp: list_output_def Let_def word_sless_alt word_sle_eq split: if_splits)

lemma list_record_entries:
  assumes it: "it \<in> set (mapRecords pwallet)"
    and inv: "\<forall>e\<in>set (frozen_outputs l). listed_within_bounds ctx pwallet e"
  shows "\<forall>e\<in>set (frozen_outputs (list_record ctx mx pwallet it l)). listed_within_bounds ctx pwallet e"
proof (cases "block_height (snd it) < 1 \<or> block_height (snd it) > m_frozen_blinded_height ctx")
  case True
  with inv show ?thesis by (simp add: list_record_def)
next
  case False
  have "\<forall>e\<in>set (frozen_outputs (fold (list_output ctx mx pwallet (fst it)) (vout (snd it)) l)).
          listed_within_bounds ctx pwallet e"
  proof (rule fold_invariant [where P = "\<lambda>l::frozen_listing. \<forall>e\<in>set (frozen_outputs l). listed_within_bounds ctx pwallet e"])
    fix r and l' :: frozen_listing
    assume r: "r \<in> set (vout (snd it))"
      and l': "\<forall>e\<in>set (frozen_outputs l'). listed_within_bounds ctx pwallet e"
    show "\<forall>e\<in>set (frozen_outputs (list_output ctx mx pwallet (fst it) r l')). listed_within_bounds ctx pwallet e"
    proof
      fix e
      assume "e \<in> set (frozen_outputs (list_output ctx mx pwallet (fst it) r l'))"
      from list_output_entries [OF this] show "listed_within_bounds ctx pwallet e"
      proof
        assume "e \<in> set (frozen_outputs l')"
        with l' show ?thesis by simp
      next
        assume "fo_txid e = fst it \<and> fo_n e = out_n r \<and> fo_amount e = nValue r \<and>
          min_frozen_blinded_value \<le>s nValue r"
        with False show ?thesis
          unfolding listed_within_bounds_def within_frozen_bounds_def
          by (intro bexI [OF _ it] bexI [OF _ r]) simp
      qed
    qed
  qed (rule inv)
  with False show ?thesis by (simp add: list_record_def)
qed

lemma listing_within_bounds:
  assumes "debugwallet_list_frozen_outputs ctx pwallet mx = Inr l"
  shows "\<forall>e\<in>set (frozen_outputs l). listed_within_bounds ctx pwallet e"
proof -
  let ?l0 = "\<lparr>frozen_outputs = [], num_spendable = 0, total_spendable = 0,
                      num_unspendable = 0, total_unspendable = 0\<rparr>"
  have "\<forall>e\<in>set (frozen_outputs (fold (list_record ctx mx pwallet) (mapRecords pwallet) ?l0)).
          listed_within_bounds ctx pwallet e"
    by (rule fold_invariant [where P = "\<lambda>l::frozen_listing. \<forall>e\<in>set (frozen_outputs l). listed_within_bounds ctx pwallet e"])
       (simp_all add: list_record_entries)
  with assms show ?thesis
    by (auto simp: debugwallet_list_frozen_outputs_def Let_def split: option.splits)
qed

lemma search_output_top_level:
  assumes "op_trace \<in> set (top_level (search_output ctx min_value mx extra_txouts pwallet txid in_height r s))"
  shows "op_trace \<in> set (top_level s) \<or>
         (op_trace = (txid, ucast (out_n r)) \<and>
          (op_trace \<in> set extra_txouts \<or> (in_height \<and> min_value \<le>s nValue r)))"
  using assms
  by (auto simp: search_output_def Let_def word_sless_alt word_sle_eq split: if_splits option.splits)

lemma search_frozen_top_level:
  "\<forall>op_trace\<in>set (top_level (search_frozen ctx min_value mx extra_txouts)).
     op_trace \<in> set extra_txouts \<or> traced_within_bounds ctx min_value op_trace"
  unfolding search_frozen_def
proof (rule fold_invariant [where P = "\<lambda>s::trace_search. \<forall>op_trace\<in>set (top_level s).
     op_trace \<in> set extra_txouts \<or> traced_within_bounds ctx min_value op_trace"])
  fix pwallet and s :: trace_search
  assume w: "pwallet \<in> set (GetWallets ctx)"
    and s: "\<forall>op_trace\<in>set (top_level s). op_trace \<in> set extra_txouts \<or> traced_within_bounds ctx min_value op_trace"
  show "\<forall>op_trace\<in>set (top_level (fold (search_record ctx min_value mx extra_txouts pwallet) (mapRecords pwallet) s)).
          op_trace \<in> set extra_txouts \<or> traced_within_bounds ctx min_value op_trace"
  proof (rule fold_invariant [where P = "\<lambda>s::trace_search. \<forall>op_trace\<in>set (top_level s).
     op_trace \<in> set extra_txouts \<or> traced_within_bounds ctx min_value op_trace"])
    fix it and s1 :: trace_search
    assume it: "it \<in> set (mapRecords pwallet)"
      and s1: "\<forall>op_trace\<in>set (top_level s1). op_trace \<in> set extra_txouts \<or> traced_within_bounds ctx min_value op_trace"
    show "\<forall>op_trace\<in>set (top_level (search_record ctx min_value mx extra_txouts pwallet it s1)).
            op_trace \<in> set extra_txouts \<or> traced_within_bounds ctx min_value op_trace"
      unfolding search_record_def Let_def
    proof (rule fold_invariant [where P = "\<lambda>s::trace_search. \<forall>op_trace\<in>set (top_level s).
       op_trace \<in> set extra_txouts \<or> traced_within_bounds ctx min_value op_trace"])
      fix r and s2 :: trace_search
      assume r: "r \<in> set (vout (snd it))"
        and s2: "\<forall>op_trace\<in>set (top_level s2). op_trace \<in> set extra_txouts \<or> traced_within_bounds ctx min_value op_trace"
      show "\<forall>op_trace\<in>set (top_level (search_output ctx min_value mx extra_txouts pwallet (fst it)
                (\<not> (block_height (snd it) < 1 \<or> m_frozen_blinded_height ctx < block_height (snd it))) r s2)).
              op_trace \<in> set extra_txouts \<or> traced_within_bounds ctx min_value op_trace"
      proof
        fix op_trace
        assume "op_trace \<in> set (top_level (search_output ctx min_value mx extra_txouts pwallet (fst it)
                (\<not> (block_height (snd it) < 1 \<or> m_frozen_blinded_height ctx < block_height (snd it))) r s2))"
        from search_output_top_level [OF this] s2 w it r
        show "op_trace \<in> set extra_txouts \<or> traced_within_bounds ctx min_value op_trace"
          by (auto simp: traced_within_bounds_def within_frozen_bounds_def)
      qed
    next
      from s1 show "\<forall>op_trace\<in>set (top_level (s1\<lparr>num_searched := num_searched s1 + 1\<rparr>)).
          op_trace \<in> set extra_txouts \<or> traced_within_bounds ctx min_value op_trace"
        by simp
    qed
  qed (rule s)
qed simp

lemma trace_top_level_within_bounds:
  assumes "debugwallet_trace_frozen_outputs ctx mx extra_outputs = Some (Inr res)"
  shows "\<forall>op_trace\<in>set (res_top_level res).
           Inr op_trace \<in> set extra_outputs \<or> traced_within_bounds ctx min_frozen_blinded_value op_trace"
proof -
  from assms obtain extra_txouts st where
    parsed: "read_extra_outputs extra_outputs [] = Inr extra_txouts"
    and res: "res = trace_result_of ctx (search_frozen ctx min_frozen_blinded_value mx extra_txouts) st"
    by (auto simp: debugwallet_trace_frozen_outputs_def traceFrozenOutputs_def bind_eq_Some_conv Let_def
        split: sum.splits option.splits)
  from read_extra_outputs_set [OF parsed] have "set extra_txouts = {op_extra. Inr op_extra \<in> set extra_outputs}"
    by simp
  with search_frozen_top_level [of ctx min_frozen_blinded_value mx extra_txouts] res
  show ?thesis
    by (simp add: trace_result_of_def Let_def)
qed

text \<open>
  C10. The minimum value is 10000. Every entry of the listing is that of an output of a
  record of the wallet whose block height is between 1 and the frozen height and whose
  value is at least the minimum, and every outpoint the tracer traces at the top level is
  one of the extra outputs of the request or that of such an output of a record of a loaded
  wallet. An output that fails a bound leaves the listing as it was, and, when it is not
  among the extra outputs, the search of the tracer as it was: no entry, no warning.
\<close>

theorem frozen_candidates_within_bounds:
  "sint min_frozen_blinded_value = 10000 \<and>
   (debugwallet_list_frozen_outputs ctx pwallet mx = Inr l \<longrightarrow>
      (\<forall>e\<in>set (frozen_outputs l). listed_within_bounds ctx pwallet e)) \<and>
   (debugwallet_trace_frozen_outputs ctx mx extra_outputs = Some (Inr res) \<longrightarrow>
      (\<forall>op_trace\<in>set (res_top_level res).
         Inr op_trace \<in> set extra_outputs \<or> traced_within_bounds ctx min_frozen_blinded_value op_trace)) \<and>
   (block_height (snd it) < 1 \<or> m_frozen_blinded_height ctx < block_height (snd it) \<longrightarrow>
      list_record ctx mx pwallet it l' = l') \<and>
   (nValue r <s min_frozen_blinded_value \<longrightarrow> list_output ctx mx pwallet txid r l' = l') \<and>
   ((\<not> in_height \<or> nValue r <s min_value) \<and> (txid, ucast (out_n r)) \<notin> set extra_txouts \<longrightarrow>
      search_output ctx min_value mx extra_txouts pwallet txid in_height r s = s)"
proof (intro conjI impI)
  show "sint min_frozen_blinded_value = 10000"
    by (simp add: min_frozen_blinded_value_def)
  show "\<forall>e\<in>set (frozen_outputs l). listed_within_bounds ctx pwallet e"
    if "debugwallet_list_frozen_outputs ctx pwallet mx = Inr l"
    using that by (rule listing_within_bounds)
  show "\<forall>op_trace\<in>set (res_top_level res).
         Inr op_trace \<in> set extra_outputs \<or> traced_within_bounds ctx min_frozen_blinded_value op_trace"
    if "debugwallet_trace_frozen_outputs ctx mx extra_outputs = Some (Inr res)"
    using that by (rule trace_top_level_within_bounds)
  show "list_record ctx mx pwallet it l' = l'"
    if "block_height (snd it) < 1 \<or> m_frozen_blinded_height ctx < block_height (snd it)"
    using that by (simp add: list_record_def)
  show "list_output ctx mx pwallet txid r l' = l'" if "nValue r <s min_frozen_blinded_value"
    using that by (simp add: list_output_def)
  show "search_output ctx min_value mx extra_txouts pwallet txid in_height r s = s"
    if "(\<not> in_height \<or> nValue r <s min_value) \<and> (txid, ucast (out_n r)) \<notin> set extra_txouts"
    using that by (auto simp: search_output_def)
qed

theorem frozen_candidates_within_bounds_witness:
  "listed_within_bounds (frozen_context [two_output_wallet 5000 50000]) (two_output_wallet 5000 50000)
     \<lparr>fo_type = OUTPUT_CT, fo_spendable = False, fo_txid = 1, fo_n = 1, fo_amount = 50000,
      fo_anon_index = None, fo_blacklisted = False\<rparr> \<and>
   (\<exists>res. debugwallet_trace_frozen_outputs chain_context 20000 [] = Some (Inr res) \<and>
      list_all (traced_within_bounds chain_context min_frozen_blinded_value) (res_top_level res)) \<and>
   list_record (frozen_context []) 20000 (plain_wallet [])
     (1, blind_in_record 0 [] [owned_blind_output 0 50000])
     \<lparr>frozen_outputs = [], num_spendable = 0, total_spendable = 0, num_unspendable = 0,
      total_unspendable = 0\<rparr> =
     \<lparr>frozen_outputs = [], num_spendable = 0, total_spendable = 0, num_unspendable = 0,
      total_unspendable = 0\<rparr> \<and>
   list_output (frozen_context []) 20000 (plain_wallet []) 1 (owned_blind_output 0 5000)
     \<lparr>frozen_outputs = [], num_spendable = 0, total_spendable = 0, num_unspendable = 0,
      total_unspendable = 0\<rparr> =
     \<lparr>frozen_outputs = [], num_spendable = 0, total_spendable = 0, num_unspendable = 0,
      total_unspendable = 0\<rparr> \<and>
   search_output (frozen_context []) min_frozen_blinded_value 20000 [] (plain_wallet []) 1 True
     (owned_blind_output 0 5000)
     \<lparr>top_level = [], set_forced = [], total_traced = 0, num_traced = 0, num_searched = 1,
      search_warnings = []\<rparr> =
     \<lparr>top_level = [], set_forced = [], total_traced = 0, num_traced = 0, num_searched = 1,
      search_warnings = []\<rparr>"
proof (intro conjI)
  let ?l0 = "\<lparr>frozen_outputs = [], num_spendable = 0, total_spendable = 0, num_unspendable = 0,
      total_unspendable = 0\<rparr>"
  have listing: "debugwallet_list_frozen_outputs (frozen_context [two_output_wallet 5000 50000])
       (two_output_wallet 5000 50000) 20000 =
     Inr \<lparr>frozen_outputs =
            [\<lparr>fo_type = OUTPUT_CT, fo_spendable = False, fo_txid = 1, fo_n = 1, fo_amount = 50000,
              fo_anon_index = None, fo_blacklisted = False\<rparr>],
          num_spendable = 0, total_spendable = 0, num_unspendable = 1, total_unspendable = 50000\<rparr>"
    by code_simp
  from frozen_candidates_within_bounds
    [where ctx = "frozen_context [two_output_wallet 5000 50000]" and pwallet = "two_output_wallet 5000 50000"
      and mx = 20000, THEN conjunct2, THEN conjunct1, rule_format, OF listing]
  show "listed_within_bounds (frozen_context [two_output_wallet 5000 50000]) (two_output_wallet 5000 50000)
     \<lparr>fo_type = OUTPUT_CT, fo_spendable = False, fo_txid = 1, fo_n = 1, fo_amount = 50000,
      fo_anon_index = None, fo_blacklisted = False\<rparr>"
    by simp
  from chain_trace_returns obtain res where
    res: "debugwallet_trace_frozen_outputs chain_context 20000 [] = Some (Inr res)"
    by blast
  from frozen_candidates_within_bounds
    [where ctx = chain_context and mx = 20000 and extra_outputs = "[]",
      THEN conjunct2, THEN conjunct2, THEN conjunct1, rule_format, OF res]
  have "list_all (traced_within_bounds chain_context min_frozen_blinded_value) (res_top_level res)"
    by (simp add: list_all_iff)
  with res show "\<exists>res. debugwallet_trace_frozen_outputs chain_context 20000 [] = Some (Inr res) \<and>
      list_all (traced_within_bounds chain_context min_frozen_blinded_value) (res_top_level res)"
    by blast
  from frozen_candidates_within_bounds
    [where ctx = "frozen_context []" and it = "(1, blind_in_record 0 [] [owned_blind_output 0 50000])",
      THEN conjunct2, THEN conjunct2, THEN conjunct2, THEN conjunct1]
  show "list_record (frozen_context []) 20000 (plain_wallet [])
     (1, blind_in_record 0 [] [owned_blind_output 0 50000]) ?l0 = ?l0"
    by (simp add: blind_in_record_def)
  from frozen_candidates_within_bounds
    [where r = "owned_blind_output 0 5000",
      THEN conjunct2, THEN conjunct2, THEN conjunct2, THEN conjunct2, THEN conjunct1]
  show "list_output (frozen_context []) 20000 (plain_wallet []) 1 (owned_blind_output 0 5000) ?l0 = ?l0"
    by (simp add: owned_blind_output_def min_frozen_blinded_value_def word_sless_alt)
  from frozen_candidates_within_bounds
    [where r = "owned_blind_output 0 5000" and in_height = True and min_value = min_frozen_blinded_value
      and extra_txouts = "[]",
      THEN conjunct2, THEN conjunct2, THEN conjunct2, THEN conjunct2, THEN conjunct2]
  show "search_output (frozen_context []) min_frozen_blinded_value 20000 [] (plain_wallet []) 1 True
     (owned_blind_output 0 5000)
     \<lparr>top_level = [], set_forced = [], total_traced = 0, num_traced = 0, num_searched = 1,
      search_warnings = []\<rparr> =
     \<lparr>top_level = [], set_forced = [], total_traced = 0, num_traced = 0, num_searched = 1,
      search_warnings = []\<rparr>"
    by (simp add: owned_blind_output_def min_frozen_blinded_value_def word_sless_alt)
qed

section \<open>The listing of two outputs of a frozen transaction\<close>

lemma fold_reaches:
  assumes keep: "\<And>y s. Q s \<Longrightarrow> Q (f y s)" and hit: "\<And>s. Q (f x s)" and x: "x \<in> set xs"
  shows "Q (fold f xs s)"
  using x
proof (induction xs arbitrary: s)
  case Nil
  then show ?case by simp
next
  case (Cons y ys)
  show ?case
  proof (cases "x = y")
    case True
    have "Q (fold f ys (f y s))"
      by (rule fold_invariant [where P = Q]) (simp_all add: keep hit True [symmetric])
    then show ?thesis by simp
  next
    case False
    with Cons.prems have "x \<in> set ys" by simp
    from Cons.IH [OF this] show ?thesis by simp
  qed
qed

lemma listed_as_list_output_keep:
  "listed_as l txid r b \<Longrightarrow> listed_as (list_output ctx mx pwallet txid' r' l) txid r b"
  by (auto simp: listed_as_def list_output_def Let_def)

lemma listed_as_list_record_keep:
  "listed_as l txid r b \<Longrightarrow> listed_as (list_record ctx mx pwallet it l) txid r b"
  unfolding list_record_def
  by (auto intro: fold_invariant [where P = "\<lambda>l. listed_as l txid r b"] listed_as_list_output_keep)

lemma list_output_lists:
  assumes "owned_unspent pwallet txid r" and "min_frozen_blinded_value \<le>s nValue r"
    and "frozen_not_whitelisted ctx pwallet txid r"
  shows "listed_as (list_output ctx mx pwallet txid r l) txid r (\<not> mx <s nValue r)"
  using assms
  by (auto simp: listed_as_def list_output_def Let_def owned_unspent_def frozen_not_whitelisted_def
      word_sless_alt word_sle_eq split: if_splits option.splits)

lemma list_record_lists:
  assumes "r \<in> set (vout rtx)" and "within_frozen_bounds ctx min_frozen_blinded_value rtx r"
    and "owned_unspent pwallet txid r" and "frozen_not_whitelisted ctx pwallet txid r"
  shows "listed_as (list_record ctx mx pwallet (txid, rtx) l) txid r (\<not> mx <s nValue r)"
proof -
  from assms(2) have h: "\<not> (block_height rtx < 1 \<or> block_height rtx > m_frozen_blinded_height ctx)"
    and v: "min_frozen_blinded_value \<le>s nValue r"
    by (auto simp: within_frozen_bounds_def)
  have "listed_as (fold (list_output ctx mx pwallet txid) (vout rtx) l) txid r (\<not> mx <s nValue r)"
    by (rule fold_reaches [where Q = "\<lambda>l. listed_as l txid r (\<not> mx <s nValue r)", OF _ _ assms(1)])
       (auto intro: listed_as_list_output_keep list_output_lists [OF assms(3) v assms(4)])
  with h show ?thesis by (simp add: list_record_def)
qed

lemma listing_lists:
  assumes "EnsureWalletIsUnlocked pwallet = None" and "(txid, rtx) \<in> set (mapRecords pwallet)"
    and "r \<in> set (vout rtx)" and "within_frozen_bounds ctx min_frozen_blinded_value rtx r"
    and "owned_unspent pwallet txid r" and "frozen_not_whitelisted ctx pwallet txid r"
  shows "\<exists>l. debugwallet_list_frozen_outputs ctx pwallet mx = Inr l \<and>
           listed_as l txid r (\<not> mx <s nValue r)"
proof -
  let ?l0 = "\<lparr>frozen_outputs = [], num_spendable = 0, total_spendable = 0,
                      num_unspendable = 0, total_unspendable = 0\<rparr>"
  have "listed_as (fold (list_record ctx mx pwallet) (mapRecords pwallet) ?l0) txid r (\<not> mx <s nValue r)"
    by (rule fold_reaches [where Q = "\<lambda>l. listed_as l txid r (\<not> mx <s nValue r)", OF _ _ assms(2)])
       (auto intro: listed_as_list_record_keep list_record_lists [OF assms(3,4,5,6)])
  then show ?thesis
    using assms(1) by (simp add: debugwallet_list_frozen_outputs_def Let_def listed_as_def)
qed

text \<open>
  C4, as the code has it. Of two owned, unspent blinded outputs of a frozen transaction,
  one of 5000 and one of 50000, with the threshold at 20000 and no whitelist, the listing
  has the output of 50000 only: the output of 5000 is below the minimum value of a frozen
  candidate and is left out, not reported as spendable.
\<close>

theorem listing_omits_low_value_counterexample:
  "debugwallet_list_frozen_outputs (frozen_context [two_output_wallet 5000 50000])
       (two_output_wallet 5000 50000) 20000 =
     Inr \<lparr>frozen_outputs =
            [\<lparr>fo_type = OUTPUT_CT, fo_spendable = False, fo_txid = 1, fo_n = 1, fo_amount = 50000,
              fo_anon_index = None, fo_blacklisted = False\<rparr>],
          num_spendable = 0, total_spendable = 0, num_unspendable = 1, total_unspendable = 50000\<rparr>"
  by code_simp

text \<open>
  C4, amended. In an unlocked wallet, take two owned, unspent outputs of one record that
  are within the bounds of a frozen candidate (block height between 1 and the frozen
  height, value at least 10000) and frozen with no whitelist entry, one with a value below
  the threshold and one with a value above it. The listing has an entry for the first with
  \<^verbatim>\<open>spendable\<close> true and an entry for the second with \<^verbatim>\<open>spendable\<close> false.
\<close>

theorem listing_low_spendable_high_not:
  assumes "EnsureWalletIsUnlocked pwallet = None" and "(txid, rtx) \<in> set (mapRecords pwallet)"
    and "r_lo \<in> set (vout rtx)" and "r_hi \<in> set (vout rtx)"
    and "within_frozen_bounds ctx min_frozen_blinded_value rtx r_lo"
    and "within_frozen_bounds ctx min_frozen_blinded_value rtx r_hi"
    and "owned_unspent pwallet txid r_lo" and "owned_unspent pwallet txid r_hi"
    and "frozen_not_whitelisted ctx pwallet txid r_lo" and "frozen_not_whitelisted ctx pwallet txid r_hi"
    and "nValue r_lo <s max_frozen_output_spendable" and "max_frozen_output_spendable <s nValue r_hi"
  shows "\<exists>l. debugwallet_list_frozen_outputs ctx pwallet max_frozen_output_spendable = Inr l \<and>
           listed_as l txid r_lo True \<and> listed_as l txid r_hi False"
proof -
  from assms(11) have lo: "\<not> max_frozen_output_spendable <s nValue r_lo"
    by (simp add: word_sless_alt)
  from listing_lists [OF assms(1,2,3,5,7,9), of max_frozen_output_spendable]
       listing_lists [OF assms(1,2,4,6,8,10), of max_frozen_output_spendable]
       lo assms(12)
  show ?thesis by auto
qed

theorem listing_low_spendable_high_not_witness:
  "\<exists>l. debugwallet_list_frozen_outputs (frozen_context [two_output_wallet 15000 50000])
          (two_output_wallet 15000 50000) 20000 = Inr l \<and>
       listed_as l 1 (owned_blind_output 0 15000) True \<and>
       listed_as l 1 (owned_blind_output 1 50000) False"
proof (rule listing_low_spendable_high_not
    [where rtx = "blind_in_record 10 [] [owned_blind_output 0 15000, owned_blind_output 1 50000]"])
  show "EnsureWalletIsUnlocked (two_output_wallet 15000 50000) = None"
    by (simp add: EnsureWalletIsUnlocked_def two_output_wallet_def plain_wallet_def)
  show "(1, blind_in_record 10 [] [owned_blind_output 0 15000, owned_blind_output 1 50000])
          \<in> set (mapRecords (two_output_wallet 15000 50000))"
    by (simp add: two_output_wallet_def plain_wallet_def)
  show "owned_blind_output 0 15000
          \<in> set (vout (blind_in_record 10 [] [owned_blind_output 0 15000, owned_blind_output 1 50000]))"
    and "owned_blind_output 1 50000
          \<in> set (vout (blind_in_record 10 [] [owned_blind_output 0 15000, owned_blind_output 1 50000]))"
    by (simp_all add: blind_in_record_def)
  show "within_frozen_bounds (frozen_context [two_output_wallet 15000 50000]) min_frozen_blinded_value
          (blind_in_record 10 [] [owned_blind_output 0 15000, owned_blind_output 1 50000])
          (owned_blind_output 0 15000)"
    and "within_frozen_bounds (frozen_context [two_output_wallet 15000 50000]) min_frozen_blinded_value
          (blind_in_record 10 [] [owned_blind_output 0 15000, owned_blind_output 1 50000])
          (owned_blind_output 1 50000)"
    by (simp_all add: within_frozen_bounds_def frozen_context_def blind_in_record_def
        owned_blind_output_def min_frozen_blinded_value_def word_sle_eq)
  show "owned_unspent (two_output_wallet 15000 50000) 1 (owned_blind_output 0 15000)"
    and "owned_unspent (two_output_wallet 15000 50000) 1 (owned_blind_output 1 50000)"
    by (simp_all add: owned_unspent_def two_output_wallet_def plain_wallet_def owned_blind_output_def
        ORF_OWNED_def)
  show "frozen_not_whitelisted (frozen_context [two_output_wallet 15000 50000])
          (two_output_wallet 15000 50000) 1 (owned_blind_output 0 15000)"
    and "frozen_not_whitelisted (frozen_context [two_output_wallet 15000 50000])
          (two_output_wallet 15000 50000) 1 (owned_blind_output 1 50000)"
    by (simp_all add: frozen_not_whitelisted_def frozen_context_def owned_blind_output_def)
  show "nValue (owned_blind_output 0 15000) <s 20000" and "20000 <s nValue (owned_blind_output 1 50000)"
    by (simp_all add: owned_blind_output_def word_sless_alt)
qed

section \<open>A transaction visited twice\<close>

lemma chain_lookups:
  "GetWallets chain_context =
     [plain_wallet [(1, blind_in_record 10 [] [owned_blind_output 0 50000]),
                    (2, blind_in_record 10 [(1, 0)] [owned_blind_output 0 50000])]]"
  by (simp add: chain_context_def frozen_context_def)

lemma chain_search:
  "search_frozen chain_context min_frozen_blinded_value 20000 [] =
     \<lparr>top_level = [(1, 0), (2, 0)], set_forced = [], total_traced = 100000, num_traced = 2,
      num_searched = 2, search_warnings = []\<rparr>"
  by code_simp

lemma already_traced_kept [simp]:
  "already_traced (push_warning m st) op_trace = already_traced st op_trace"
  "already_traced (push_input h op_in st) op_trace = already_traced st op_trace"
  "already_traced (mark_top_level [] op_top st) op_trace = already_traced st op_trace"
  by (auto simp: already_traced_def push_warning_def push_input_def mark_top_level_def set_traced_tx_def
      traced_tx_def TracedTx_init_def Let_def split: option.split)

lemma chain_first_step:
  assumes "\<not> already_traced st (1, 0)"
  shows "\<exists>st'. traceFrozenPrevout chain_context (1, 0) sp st = Some st' \<and>
           warnings st' = warnings st @ [strprintf ''ReadStoredTx failed %s'' [ArgHash 1]] \<and>
           \<not> already_traced st' (1, 0) \<and> (already_traced st' (2, 0) = already_traced st (2, 0))"
  apply (subst traceFrozenPrevout.simps)
  using assms
  apply (simp add: chain_lookups cyclic_lookups input_type_blind_in record_prevout_no_stored_tx
      example_lookups already_traced_enter)
  done

lemma chain_second_step:
  assumes "\<not> already_traced st (1, 0)" and "\<not> already_traced st (2, 0)"
  shows "\<exists>st'. traceFrozenPrevout chain_context (2, 0) sp st = Some st' \<and>
           warnings st' = warnings st @ [strprintf ''ReadStoredTx failed %s'' [ArgHash 1],
                                          strprintf ''ReadStoredTx failed %s'' [ArgHash 2]]"
proof -
  let ?W = "plain_wallet [(1, blind_in_record 10 [] [owned_blind_output 0 50000]),
                    (2, blind_in_record 10 [(1, 0)] [owned_blind_output 0 50000])]"
  let ?st1 = "enter_traced_tx ?W (blind_in_record 10 [(1, 0)] [owned_blind_output 0 50000]) 2 st"
  from assms(1) have "\<not> already_traced ?st1 (1, 0)"
    by (simp add: already_traced_enter)
  from chain_first_step [OF this, of 2] obtain st2 where
    s: "traceFrozenPrevout chain_context (1, 0) 2 ?st1 = Some st2"
    and w: "warnings st2 = warnings st @ [strprintf ''ReadStoredTx failed %s'' [ArgHash 1]]"
    by auto
  show ?thesis
    apply (subst traceFrozenPrevout.simps)
    using assms(2) s w
    apply (simp add: chain_lookups cyclic_lookups input_type_blind_in record_prevout_no_stored_tx
        example_lookups)
    done
qed

text \<open>
  On the chain of two records, neither with a stored transaction, the walk from the two
  frozen outputs warns twice of transaction 1: once when its output is traced, and once
  more when the output of transaction 2 is, whose input it is. Its output is not in the
  map after the first visit (its stored transaction is missing), so the test at the head
  of \<open>traceFrozenPrevout\<close> does not stop the second.
\<close>

lemma chain_walk_expands_twice:
  "map_option warnings
     (trace_top_level chain_context (search_frozen chain_context min_frozen_blinded_value 20000 [])) =
   Some [strprintf ''ReadStoredTx failed %s'' [ArgHash 1],
         strprintf ''ReadStoredTx failed %s'' [ArgHash 1],
         strprintf ''ReadStoredTx failed %s'' [ArgHash 2]]"
proof -
  let ?st0 = "\<lparr>traced_txs = Map.empty, warnings = []\<rparr>"
  have a: "\<not> already_traced ?st0 (1, 0)" "\<not> already_traced ?st0 (2, 0)"
    by (simp_all add: already_traced_def)
  from chain_first_step [OF a(1), of 0] a(2) obtain st1 where
    s1: "traceFrozenPrevout chain_context (1, 0) 0 ?st0 = Some st1"
    and w1: "warnings st1 = [strprintf ''ReadStoredTx failed %s'' [ArgHash 1]]"
    and n1: "\<not> already_traced st1 (1, 0)" "\<not> already_traced st1 (2, 0)"
    by auto
  from n1 have "\<not> already_traced (mark_top_level [] (1, 0) st1) (1, 0)"
    "\<not> already_traced (mark_top_level [] (1, 0) st1) (2, 0)"
    by simp_all
  from chain_second_step [OF this, of 0] w1 obtain st2 where
    s2: "traceFrozenPrevout chain_context (2, 0) 0 (mark_top_level [] (1, 0) st1) = Some st2"
    and w2: "warnings st2 = [strprintf ''ReadStoredTx failed %s'' [ArgHash 1],
         strprintf ''ReadStoredTx failed %s'' [ArgHash 1],
         strprintf ''ReadStoredTx failed %s'' [ArgHash 2]]"
    by auto
  show ?thesis
    by (simp add: trace_top_level_def chain_search s1 s2 w2)
qed

section \<open>The trace reports every failure and goes on\<close>

declare split_paired_All [simp del] split_paired_Ex [simp del]

lemma already_traced_output: "already_traced st op = (output_of_trace st op \<noteq> None)"
  by (simp add: already_traced_def output_of_trace_def traced_tx_def TracedTx_init_def split: option.split)

lemma m_outputs_set_traced_tx:
  "m_outputs (traced_tx (set_traced_tx h t st) h') = (if h' = h then m_outputs t else m_outputs (traced_tx st h'))"
  by (simp add: set_traced_tx_def traced_tx_def)

lemma m_outputs_push_warning [simp]: "traced_tx (push_warning m st) h = traced_tx st h"
  by (simp add: push_warning_def traced_tx_def)

lemma output_enter [simp]: "output_of_trace (enter_traced_tx pwallet rtx h st) op = output_of_trace st op"
  by (simp add: output_of_trace_def enter_traced_tx_def Let_def m_outputs_set_traced_tx)

lemma output_push_input [simp]: "output_of_trace (push_input h op_in st) op = output_of_trace st op"
  by (simp add: output_of_trace_def push_input_def Let_def m_outputs_set_traced_tx)

lemma output_push_warning [simp]: "output_of_trace (push_warning m st) op = output_of_trace st op"
  by (simp add: output_of_trace_def)

lemma sint_32_inj: "sint (a :: 32 word) = sint b \<Longrightarrow> a = b"
  by (rule signed_word_eqI)

lemma output_set_traced_tx:
  "output_of_trace (set_traced_tx h (t\<lparr>m_outputs := (m_outputs t)(sint n \<mapsto> o')\<rparr>) st) op =
     (if op = (h, n) then Some o'
      else if op_hash op = h then m_outputs t (sint (op_n op)) else output_of_trace st op)"
  by (cases op) (auto simp: output_of_trace_def m_outputs_set_traced_tx dest: sint_32_inj)

lemma GetOutput_Some: "GetOutput rtx i = Some r \<Longrightarrow> uint (out_n r) = i \<and> r \<in> set (vout rtx)"
  by (auto simp: GetOutput_def find_Some_iff)

lemma wallet_reports_mono:
  "wallet_reports ctx W entered recorded pwallet op \<Longrightarrow> W \<subseteq> W' \<Longrightarrow>
   (\<And>h. entered h \<Longrightarrow> entered' h) \<Longrightarrow> (\<And>op. recorded op \<Longrightarrow> recorded' op) \<Longrightarrow>
   wallet_reports ctx W' entered' recorded' pwallet op"
  by (auto simp: wallet_reports_def split: option.splits)

lemma walk_reports_mono:
  "walk_reports ctx W entered recorded op \<Longrightarrow> W \<subseteq> W' \<Longrightarrow>
   (\<And>h. entered h \<Longrightarrow> entered' h) \<Longrightarrow> (\<And>op. recorded op \<Longrightarrow> recorded' op) \<Longrightarrow>
   walk_reports ctx W' entered' recorded' op"
  unfolding walk_reports_def
  by (intro allI impI ballI,
      rule wallet_reports_mono [where W = W and recorded = recorded and entered = entered]) auto

lemma walk_grows_refl: "walk_grows st st"
  by (simp add: walk_grows_def)

lemma walk_grows_trans: "walk_grows a b \<Longrightarrow> walk_grows b c \<Longrightarrow> walk_grows a c"
  by (auto simp: walk_grows_def)

lemma walk_reports_grows:
  "walk_reports ctx (set (warnings st)) (already_entered st) (already_traced st) op \<Longrightarrow> walk_grows st st' \<Longrightarrow>
   walk_reports ctx (set (warnings st')) (already_entered st') (already_traced st') op"
  by (rule walk_reports_mono [where W = "set (warnings st)" and recorded = "already_traced st"
        and entered = "already_entered st"])
     (auto simp add: walk_grows_def)

lemma already_entered_enter_mono:
  "already_entered st h' \<Longrightarrow> already_entered (enter_traced_tx pwallet rtx h st) h'"
  by (simp add: already_entered_def enter_traced_tx_def Let_def set_traced_tx_def)

lemma already_entered_push_input_mono:
  "already_entered st h' \<Longrightarrow> already_entered (push_input h op_in st) h'"
  by (simp add: already_entered_def push_input_def Let_def set_traced_tx_def)

lemma walk_grows_enter: "walk_grows st (enter_traced_tx pwallet rtx h st)"
  by (simp add: walk_grows_def already_traced_output already_entered_enter_mono)

lemma walk_grows_push_input: "walk_grows st (push_input h op_in st)"
  by (simp add: walk_grows_def already_traced_output already_entered_push_input_mono)

lemma already_entered_enter: "already_entered (enter_traced_tx pwallet rtx h st) h"
  by (simp add: already_entered_def enter_traced_tx_def Let_def)

lemma already_entered_record_prevout:
  "already_entered st h \<Longrightarrow> already_entered (record_prevout pwallet rtx op txid_spentby st) h"
  by (simp add: already_entered_def record_prevout_def Let_def set_traced_tx_def push_warning_def
      split: option.split)

lemma already_entered_mark_top_level:
  "already_entered (mark_top_level forced op st) h = (h = op_hash op \<or> already_entered st h)"
  by (auto simp: already_entered_def mark_top_level_def Let_def set_traced_tx_def)

lemma record_prevout_other:
  "op' \<noteq> op \<Longrightarrow> output_of_trace (record_prevout pwallet rtx op txid_spentby st) op' = output_of_trace st op'"
proof (cases "GetOutput rtx (sint (op_n op))")
  case None
  then show ?thesis by (simp add: record_prevout_def)
next
  case (Some r)
  assume ne: "op' \<noteq> op"
  from Some have k: "uint (out_n r) = sint (op_n op)"
    by (simp add: GetOutput_Some)
  show ?thesis
  proof (cases "ReadStoredTx pwallet (op_hash op)")
    case None
    with Some show ?thesis by (simp add: record_prevout_def)
  next
    case (Some stx)
    from ne have "op_hash op' = op_hash op \<Longrightarrow> sint (op_n op') \<noteq> sint (op_n op)"
      by (cases op, cases op') (auto dest: sint_32_inj)
    then show ?thesis
      using \<open>GetOutput rtx (sint (op_n op)) = Some r\<close> Some
      by (simp add: record_prevout_def Let_def k output_of_trace_def m_outputs_set_traced_tx)
  qed
qed

lemma record_prevout_recorded:
  assumes "GetOutput rtx (sint (op_n op)) = Some r"
    and "ReadStoredTx pwallet (op_hash op) = Some stx"
  shows "output_of_trace (record_prevout pwallet rtx op txid_spentby st) op \<noteq> None"
proof -
  from assms(1) have k: "uint (out_n r) = sint (op_n op)"
    by (simp add: GetOutput_Some)
  show ?thesis
    using assms by (simp add: record_prevout_def Let_def k output_of_trace_def m_outputs_set_traced_tx)
qed

lemma record_prevout_blinding_factor:
  assumes "GetOutput rtx (sint (op_n op)) = Some r"
    and "ReadStoredTx pwallet (op_hash op) = Some stx"
    and "output_of_trace (record_prevout pwallet rtx op txid_spentby st) op = Some o3"
    and "m_blinding_factor o3 \<noteq> 0"
  shows "(\<exists>o0. output_of_trace st op = Some o0 \<and> m_blinding_factor o0 \<noteq> 0) \<or>
         (\<exists>b. GetBlind stx (sint (op_n op)) = Some b \<and> b \<noteq> 0)"
proof -
  from assms(1) have k: "uint (out_n r) = sint (op_n op)"
    by (simp add: GetOutput_Some)
  show ?thesis
    using assms
    by (auto simp: record_prevout_def Let_def k output_of_trace_def m_outputs_set_traced_tx
        TracedOutput_init_def split: option.splits if_splits)
qed

lemma record_prevout_unrecorded:
  assumes "GetOutput rtx (sint (op_n op)) = None \<or> ReadStoredTx pwallet (op_hash op) = None"
  shows "output_of_trace (record_prevout pwallet rtx op txid_spentby st) op' = output_of_trace st op'"
  using assms by (auto simp: record_prevout_def split: option.splits)

lemma record_prevout_warns_blind:
  assumes "GetOutput rtx (sint (op_n op)) = Some r"
    and "ReadStoredTx pwallet (op_hash op) = Some stx"
    and "GetBlind stx (uint (out_n r)) = None"
    and "\<And>o0. output_of_trace st op = Some o0 \<Longrightarrow> m_blinding_factor o0 = 0"
  shows "strprintf ''GetBlind failed %s'' [ArgOutPoint op]
           \<in> set (warnings (record_prevout pwallet rtx op txid_spentby st))"
proof -
  from assms(1) have k: "uint (out_n r) = sint (op_n op)"
    by (simp add: GetOutput_Some)
  show ?thesis
    using assms
    by (auto simp: record_prevout_def Let_def k output_of_trace_def TracedOutput_init_def
        split: option.splits)
qed

lemma walk_covered_grows: "walk_covered ctx s x \<Longrightarrow> walk_grows s s' \<Longrightarrow> walk_covered ctx s' x"
  unfolding walk_covered_def by (rule walk_reports_grows)

lemma wallet_done_grows: "wallet_done ctx s w op \<Longrightarrow> walk_grows s s' \<Longrightarrow> wallet_done ctx s' w op"
proof -
  assume d: "wallet_done ctx s w op" and g: "walk_grows s s'"
  from d have "wallet_reports ctx (set (warnings s)) (already_entered s) (already_traced s) w op"
    by (simp add: wallet_done_def)
  then have "wallet_reports ctx (set (warnings s')) (already_entered s') (already_traced s') w op"
    by (rule wallet_reports_mono) (use g in \<open>auto simp: walk_grows_def\<close>)
  moreover from d have "walk_covered ctx s' op_in"
    if "map_of (mapRecords w) (op_hash op) = Some rtx" "input_type_of rtx \<noteq> OUTPUT_STANDARD"
      "op_in \<in> set (vin rtx)" for rtx op_in
    using that walk_covered_grows [OF _ g] by (auto simp: wallet_done_def)
  ultimately show ?thesis
    by (auto simp: wallet_done_def)
qed

lemma already_traced_enter_eq [simp]: "already_traced (enter_traced_tx pwallet rtx h st) = already_traced st"
  by (rule ext) (simp add: already_traced_output)

lemma already_traced_push_input [simp]: "already_traced (push_input h op_in st) = already_traced st"
  by (rule ext) (simp add: already_traced_output)

lemma walk_frame_same_outputs:
  assumes f: "walk_frame ctx st op s" and g: "walk_grows s s'"
    and o: "\<And>op'. output_of_trace s' op' = output_of_trace s op'"
  shows "walk_frame ctx st op s'"
proof -
  have a: "already_traced s' = already_traced s"
    by (rule ext) (simp add: already_traced_output o)
  from f have "walk_grows st s'"
    using walk_grows_trans [OF _ g] by (simp add: walk_frame_def)
  moreover from f have "walk_reached ctx op st s'"
    by (simp add: walk_frame_def walk_reached_def a)
  moreover from f have "blinds_null ctx s'"
    by (simp add: walk_frame_def blinds_null_def o)
  moreover have "already_traced st op' \<or> walk_covered ctx s' op' \<or> op' = op" if "already_traced s' op'" for op'
  proof -
    from that f have "already_traced st op' \<or> walk_covered ctx s op' \<or> op' = op"
      by (simp add: walk_frame_def a)
    then show ?thesis
      using walk_covered_grows [OF _ g] by blast
  qed
  ultimately show ?thesis
    by (simp add: walk_frame_def)
qed

lemma walk_frame_enter:
  "walk_frame ctx st op s \<Longrightarrow> walk_frame ctx st op (enter_traced_tx pwallet rtx h s)"
  by (erule walk_frame_same_outputs) (simp_all add: walk_grows_enter)

lemma walk_frame_push_input:
  "walk_frame ctx st op s \<Longrightarrow> walk_frame ctx st op (push_input h op_in s)"
  by (erule walk_frame_same_outputs) (simp_all add: walk_grows_push_input)

lemma walk_reached_refl: "walk_reached ctx op st st"
  by (simp add: walk_reached_def)

lemma walk_reached_trans:
  "walk_reached ctx op a b \<Longrightarrow> walk_reached ctx op b c \<Longrightarrow> walk_reached ctx op a c"
  unfolding walk_reached_def by blast

lemma walk_reached_edge:
  "input_edge ctx op op_in \<Longrightarrow> walk_reached ctx op_in a b \<Longrightarrow> walk_reached ctx op a b"
  unfolding walk_reached_def by (blast intro: converse_rtranclp_into_rtranclp)

lemma walk_frame_step:
  assumes "walk_frame ctx st op s" and "walk_step ctx s s1" and "walk_reached ctx op s s1"
  shows "walk_frame ctx st op s1"
proof -
  from assms have g: "walk_grows s s1" and g0: "walk_grows st s"
    and r: "walk_reached ctx op st s1"
    by (auto simp: walk_step_def walk_frame_def intro: walk_reached_trans)
  have "already_traced st op' \<or> walk_covered ctx s1 op' \<or> op' = op" if "already_traced s1 op'" for op'
  proof -
    from that assms(2) have "already_traced s op' \<or> walk_covered ctx s1 op'"
      by (simp add: walk_step_def)
    then show ?thesis
    proof
      assume "already_traced s op'"
      with assms(1) have "already_traced st op' \<or> walk_covered ctx s op' \<or> op' = op"
        by (simp add: walk_frame_def)
      then show ?thesis
        using walk_covered_grows [OF _ g] by blast
    qed simp
  qed
  with assms g g0 r show ?thesis
    by (simp add: walk_frame_def walk_step_def walk_grows_trans [OF g0 g])
qed

lemma record_step:
  assumes bn: "blinds_null ctx s" and w: "pwallet \<in> set (GetWallets ctx)"
  shows "walk_grows s (record_prevout pwallet rtx op txid_spentby s)"
    and "blinds_null ctx (record_prevout pwallet rtx op txid_spentby s)"
    and "already_traced (record_prevout pwallet rtx op txid_spentby s) op' \<Longrightarrow> already_traced s op' \<or> op' = op"
    and "map_of (mapRecords pwallet) (op_hash op) = Some rtx \<Longrightarrow> already_entered s (op_hash op) \<Longrightarrow>
         wallet_reports ctx (set (warnings (record_prevout pwallet rtx op txid_spentby s)))
           (already_entered (record_prevout pwallet rtx op txid_spentby s))
           (already_traced (record_prevout pwallet rtx op txid_spentby s)) pwallet op"
proof -
  let ?s' = "record_prevout pwallet rtx op txid_spentby s"
  have rec: "(\<exists>r stx. GetOutput rtx (sint (op_n op)) = Some r \<and> ReadStoredTx pwallet (op_hash op) = Some stx) \<or>
        GetOutput rtx (sint (op_n op)) = None \<or> ReadStoredTx pwallet (op_hash op) = None"
    by (cases "GetOutput rtx (sint (op_n op))"; cases "ReadStoredTx pwallet (op_hash op)") simp_all
  have keep: "output_of_trace s op' \<noteq> None \<Longrightarrow> output_of_trace ?s' op' \<noteq> None" for op'
  proof (cases "op' = op")
    case False
    assume "output_of_trace s op' \<noteq> None"
    with False show ?thesis by (simp add: record_prevout_other)
  next
    case True
    assume "output_of_trace s op' \<noteq> None"
    with rec True show ?thesis
      using record_prevout_recorded [of rtx op _ pwallet _ txid_spentby s]
      by (auto simp: record_prevout_unrecorded)
  qed
  show "walk_grows s ?s'"
    using keep set_mono_prefix [OF warnings_record_prevout [of s pwallet rtx op txid_spentby]]
    by (auto simp: walk_grows_def already_traced_output already_entered_record_prevout)
  show "blinds_null ctx ?s'"
    unfolding blinds_null_def
  proof (intro allI impI)
    fix op' o'
    assume o: "output_of_trace ?s' op' = Some o'" and b: "m_blinding_factor o' \<noteq> 0"
    show "blind_known ctx op'"
    proof (cases "op' = op")
      case False
      with o b bn show ?thesis
        by (simp add: record_prevout_other blinds_null_def)
    next
      case True
      from rec show ?thesis
      proof (elim disjE exE conjE)
        fix r stx
        assume r: "GetOutput rtx (sint (op_n op)) = Some r" and stx: "ReadStoredTx pwallet (op_hash op) = Some stx"
        from record_prevout_blinding_factor [OF r stx o [unfolded True] b]
        show ?thesis
        proof (elim disjE exE conjE)
          fix o0 assume "output_of_trace s op = Some o0" "m_blinding_factor o0 \<noteq> 0"
          with bn True show ?thesis by (simp add: blinds_null_def)
        next
          fix bl assume "GetBlind stx (sint (op_n op)) = Some bl" "bl \<noteq> 0"
          with w stx True show ?thesis
            unfolding blind_known_def by blast
        qed
      next
        assume "GetOutput rtx (sint (op_n op)) = None"
        with o b bn show ?thesis
          by (simp add: record_prevout_unrecorded blinds_null_def)
      next
        assume "ReadStoredTx pwallet (op_hash op) = None"
        with o b bn show ?thesis
          by (simp add: record_prevout_unrecorded blinds_null_def)
      qed
    qed
  qed
  show "already_traced s op' \<or> op' = op" if "already_traced ?s' op'"
    using that by (cases "op' = op") (simp_all add: already_traced_output record_prevout_other)
  show "wallet_reports ctx (set (warnings ?s')) (already_entered ?s') (already_traced ?s') pwallet op"
    if m: "map_of (mapRecords pwallet) (op_hash op) = Some rtx" and en: "already_entered s (op_hash op)"
  proof (cases "GetOutput rtx (sint (op_n op))")
    case None
    note en' = already_entered_record_prevout [OF en, of pwallet rtx op txid_spentby]
    from None m en' show ?thesis by (simp add: wallet_reports_def)
  next
    case (Some r)
    show ?thesis
    proof (cases "ReadStoredTx pwallet (op_hash op)")
      case None
      note en' = already_entered_record_prevout [OF en, of pwallet rtx op txid_spentby]
      from None m Some en' show ?thesis
        by (simp add: wallet_reports_def record_prevout_no_stored_tx)
    next
      case stx: (Some stx)
      have z: "m_blinding_factor o0 = 0" if "output_of_trace s op = Some o0" "\<not> blind_known ctx op" for o0
        using that bn by (auto simp: blinds_null_def)
      note en' = already_entered_record_prevout [OF en, of pwallet rtx op txid_spentby]
      from m Some stx en' show ?thesis
        using record_prevout_recorded [OF Some stx, of txid_spentby s]
          record_prevout_no_link [OF Some stx, of txid_spentby s]
          record_prevout_warns_blind [OF Some stx, of s txid_spentby] z
        by (auto simp: wallet_reports_def already_traced_output)
    qed
  qed
qed

lemma for_each_total:
  assumes init: "I [] st"
    and step: "\<And>seen x s. I seen s \<Longrightarrow> x \<in> set xs \<Longrightarrow> \<exists>s'. body x s = Some s' \<and> I (seen @ [x]) s'"
  shows "\<exists>st'. for_each body xs st = Some st' \<and> I xs st'"
proof -
  have "\<exists>st'. for_each body rest st = Some st' \<and> I (seen @ rest) st'"
    if "I seen st" and "set rest \<subseteq> set xs" for seen rest st
    using that
  proof (induction rest arbitrary: seen st)
    case Nil
    then show ?case by simp
  next
    case (Cons x rest)
    from step [OF Cons.prems(1), of x] Cons.prems(2) obtain s'
      where b: "body x st = Some s'" and i: "I (seen @ [x]) s'"
      by auto
    from Cons.IH [OF i] Cons.prems(2) obtain st'
      where "for_each body rest s' = Some st'" "I ((seen @ [x]) @ rest) st'"
      by auto
    with b show ?case by simp
  qed
  from this [of "[]" st xs] init show ?thesis by simp
qed

lemma traceFrozenPrevout_covers:
  assumes ranked: "inputs_ranked rank ctx"
  shows "blinds_null ctx st \<Longrightarrow>
    (\<And>op'. rank (op_hash op') \<le> rank (op_hash op) \<Longrightarrow> already_traced st op' \<Longrightarrow> walk_covered ctx st op') \<Longrightarrow>
    \<exists>st'. traceFrozenPrevout ctx op txid_spentby st = Some st' \<and> walk_step ctx st st' \<and>
          walk_covered ctx st' op \<and> walk_reached ctx op st st'"
proof (induction "rank (op_hash op)" arbitrary: op txid_spentby st rule: less_induct)
  case less
  note bn = less.prems(1) and pre = less.prems(2)
  show ?case
  proof (cases "already_traced st op")
    case True
    from pre [OF _ True] have "walk_covered ctx st op" by simp
    with True bn show ?thesis
      by (subst traceFrozenPrevout.simps) (simp add: walk_step_def walk_grows_refl walk_reached_refl)
  next
    case False
    have input: "\<exists>s'. Option.bind (traceFrozenPrevout ctx op_in (op_hash op) s)
                   (\<lambda>st. Some (push_input (op_hash op) op_in st)) = Some s' \<and>
                 walk_frame ctx st op s' \<and> walk_grows s s' \<and> walk_covered ctx s' op_in"
      if w: "pwallet \<in> set (GetWallets ctx)" and m: "map_of (mapRecords pwallet) (op_hash op) = Some rtx"
        and ty: "input_type_of rtx \<noteq> OUTPUT_STANDARD"
        and i: "op_in \<in> set (vin rtx)" and f: "walk_frame ctx st op s"
      for pwallet rtx op_in s
    proof -
      from w m ty i have edge: "input_edge ctx op op_in"
        unfolding input_edge_def by blast
      from m have "(op_hash op, rtx) \<in> set (mapRecords pwallet)"
        by (rule map_of_SomeD)
      with ranked w i have lt: "rank (op_hash op_in) < rank (op_hash op)"
        by (fastforce simp: inputs_ranked_def)
      from f have g0: "walk_grows st s" and bs: "blinds_null ctx s"
        by (simp_all add: walk_frame_def)
      have "walk_covered ctx s op'" if r: "rank (op_hash op') \<le> rank (op_hash op_in)" and a: "already_traced s op'" for op'
      proof -
        from f a have "already_traced st op' \<or> walk_covered ctx s op' \<or> op' = op"
          by (simp add: walk_frame_def)
        moreover from r lt have "op' \<noteq> op" by auto
        moreover have "walk_covered ctx s op'" if "already_traced st op'"
          using pre [OF _ that] r lt walk_covered_grows [OF _ g0] by simp
        ultimately show ?thesis by blast
      qed
      from less.hyps [OF lt bs this, of "op_hash op"] obtain s1 where
        t: "traceFrozenPrevout ctx op_in (op_hash op) s = Some s1" and st: "walk_step ctx s s1"
        and c: "walk_covered ctx s1 op_in" and re: "walk_reached ctx op_in s s1"
        by blast
      from st have "walk_grows s s1" by (simp add: walk_step_def)
      then have "walk_grows s (push_input (op_hash op) op_in s1)"
        by (rule walk_grows_trans) (rule walk_grows_push_input)
      moreover have "walk_frame ctx st op (push_input (op_hash op) op_in s1)"
        by (rule walk_frame_push_input) (rule walk_frame_step [OF f st walk_reached_edge [OF edge re]])
      moreover have "walk_covered ctx (push_input (op_hash op) op_in s1) op_in"
        by (rule walk_covered_grows [OF c walk_grows_push_input])
      ultimately show ?thesis
        using t by simp
    qed
    have inputs: "\<exists>s'. for_each (\<lambda>op_in st. Option.bind (traceFrozenPrevout ctx op_in (op_hash op) st)
                            (\<lambda>st. Some (push_input (op_hash op) op_in st))) (vin rtx) s0 = Some s' \<and>
                 walk_frame ctx st op s' \<and> walk_grows s0 s' \<and> (\<forall>op_in\<in>set (vin rtx). walk_covered ctx s' op_in)"
      if w: "pwallet \<in> set (GetWallets ctx)" and m: "map_of (mapRecords pwallet) (op_hash op) = Some rtx"
        and ty: "input_type_of rtx \<noteq> OUTPUT_STANDARD" and f: "walk_frame ctx st op s0"
      for pwallet rtx s0
    proof -
      have "\<exists>s'. for_each (\<lambda>op_in st. Option.bind (traceFrozenPrevout ctx op_in (op_hash op) st)
                            (\<lambda>st. Some (push_input (op_hash op) op_in st))) (vin rtx) s0 = Some s' \<and>
                 (walk_frame ctx st op s' \<and> walk_grows s0 s' \<and> (\<forall>op_in\<in>set (vin rtx). walk_covered ctx s' op_in))"
      proof (rule for_each_total [where I = "\<lambda>seen s. walk_frame ctx st op s \<and> walk_grows s0 s \<and>
                 (\<forall>op_in\<in>set seen. walk_covered ctx s op_in)"])
        show "walk_frame ctx st op s0 \<and> walk_grows s0 s0 \<and> (\<forall>op_in\<in>set []. walk_covered ctx s0 op_in)"
          using f by (simp add: walk_grows_refl)
      next
        fix seen op_in s
        assume inv: "walk_frame ctx st op s \<and> walk_grows s0 s \<and> (\<forall>op_in\<in>set seen. walk_covered ctx s op_in)"
          and i: "op_in \<in> set (vin rtx)"
        from input [OF w m ty i, of s] inv obtain s' where
          b: "Option.bind (traceFrozenPrevout ctx op_in (op_hash op) s)
                   (\<lambda>st. Some (push_input (op_hash op) op_in st)) = Some s'"
          and f': "walk_frame ctx st op s'" and g: "walk_grows s s'" and c: "walk_covered ctx s' op_in"
          by blast
        from inv g have "walk_grows s0 s'"
          by (blast intro: walk_grows_trans)
        moreover from inv have "\<forall>y\<in>set seen. walk_covered ctx s' y"
          using walk_covered_grows [OF _ g] by blast
        ultimately show "\<exists>s'. Option.bind (traceFrozenPrevout ctx op_in (op_hash op) s)
                   (\<lambda>st. Some (push_input (op_hash op) op_in st)) = Some s' \<and>
                 (walk_frame ctx st op s' \<and> walk_grows s0 s' \<and> (\<forall>op_in\<in>set (seen @ [op_in]). walk_covered ctx s' op_in))"
          using b f' c by auto
      qed
      then show ?thesis by simp
    qed
    have wallet: "\<exists>s'. (case map_of (mapRecords pwallet) (op_hash op) of
             None \<Rightarrow> Some s
           | Some rtx \<Rightarrow>
               Option.bind
                 (if input_type_of rtx \<noteq> OUTPUT_STANDARD
                  then for_each
                         (\<lambda>op_in st. Option.bind
                            (traceFrozenPrevout ctx op_in (op_hash op) st)
                            (\<lambda>st. Some (push_input (op_hash op) op_in st)))
                         (vin rtx) (enter_traced_tx pwallet rtx (op_hash op) s)
                  else Some (enter_traced_tx pwallet rtx (op_hash op) s))
                 (\<lambda>st. Some (record_prevout pwallet rtx op txid_spentby st))) = Some s' \<and>
           walk_frame ctx st op s' \<and> walk_grows s s' \<and> wallet_done ctx s' pwallet op"
      if w: "pwallet \<in> set (GetWallets ctx)" and f: "walk_frame ctx st op s" for pwallet s
    proof (cases "map_of (mapRecords pwallet) (op_hash op)")
      case None
      with f show ?thesis
        by (simp add: walk_grows_refl wallet_done_def wallet_reports_def)
    next
      case (Some rtx)
      have "\<exists>s1. (if input_type_of rtx \<noteq> OUTPUT_STANDARD
                  then for_each
                         (\<lambda>op_in st. Option.bind
                            (traceFrozenPrevout ctx op_in (op_hash op) st)
                            (\<lambda>st. Some (push_input (op_hash op) op_in st)))
                         (vin rtx) (enter_traced_tx pwallet rtx (op_hash op) s)
                  else Some (enter_traced_tx pwallet rtx (op_hash op) s)) = Some s1 \<and>
            walk_frame ctx st op s1 \<and> walk_grows s s1 \<and> already_entered s1 (op_hash op) \<and>
            (input_type_of rtx \<noteq> OUTPUT_STANDARD \<longrightarrow> (\<forall>op_in\<in>set (vin rtx). walk_covered ctx s1 op_in))"
      proof (cases "input_type_of rtx \<noteq> OUTPUT_STANDARD")
        case True
        from f have "walk_frame ctx st op (enter_traced_tx pwallet rtx (op_hash op) s)"
          by (rule walk_frame_enter)
        from inputs [OF w Some True this] obtain s1 where
          "for_each (\<lambda>op_in st. Option.bind (traceFrozenPrevout ctx op_in (op_hash op) st)
                            (\<lambda>st. Some (push_input (op_hash op) op_in st))) (vin rtx)
             (enter_traced_tx pwallet rtx (op_hash op) s) = Some s1"
          "walk_frame ctx st op s1" "walk_grows (enter_traced_tx pwallet rtx (op_hash op) s) s1"
          "\<forall>op_in\<in>set (vin rtx). walk_covered ctx s1 op_in"
          by blast
        moreover from this(3) have "already_entered s1 (op_hash op)"
          using already_entered_enter [of pwallet rtx "op_hash op" s] by (simp add: walk_grows_def)
        ultimately show ?thesis
          using True walk_grows_trans [OF walk_grows_enter [of s pwallet rtx "op_hash op"]]
          by auto
      next
        case False
        with walk_frame_enter [OF f] show ?thesis
          by (simp add: walk_grows_enter already_entered_enter)
      qed
      then obtain s1 where
        r: "(if input_type_of rtx \<noteq> OUTPUT_STANDARD
                  then for_each
                         (\<lambda>op_in st. Option.bind
                            (traceFrozenPrevout ctx op_in (op_hash op) st)
                            (\<lambda>st. Some (push_input (op_hash op) op_in st)))
                         (vin rtx) (enter_traced_tx pwallet rtx (op_hash op) s)
                  else Some (enter_traced_tx pwallet rtx (op_hash op) s)) = Some s1"
        and f1: "walk_frame ctx st op s1" and g1: "walk_grows s s1"
        and e1: "already_entered s1 (op_hash op)"
        and c1: "input_type_of rtx \<noteq> OUTPUT_STANDARD \<longrightarrow> (\<forall>op_in\<in>set (vin rtx). walk_covered ctx s1 op_in)"
        by blast
      let ?s' = "record_prevout pwallet rtx op txid_spentby s1"
      from f1 have bn1: "blinds_null ctx s1" and g01: "walk_grows st s1"
        and r01: "walk_reached ctx op st s1"
        by (simp_all add: walk_frame_def)
      note rs = record_step [OF bn1 w, where rtx = rtx and op = op and txid_spentby = txid_spentby]
      have g': "walk_grows s1 ?s'" by (rule rs(1))
      have "already_traced st op' \<or> walk_covered ctx ?s' op' \<or> op' = op" if "already_traced ?s' op'" for op'
      proof -
        from rs(3) [OF that] have "already_traced s1 op' \<or> op' = op" .
        with f1 have "already_traced st op' \<or> walk_covered ctx s1 op' \<or> op' = op"
          by (auto simp: walk_frame_def)
        then show ?thesis
          using walk_covered_grows [OF _ g'] by blast
      qed
      moreover have "walk_reached ctx op st ?s'"
        unfolding walk_reached_def
      proof (intro allI impI)
        fix op' assume "already_traced ?s' op'"
        from rs(3) [OF this] r01 show "already_traced st op' \<or> (input_edge ctx)\<^sup>*\<^sup>* op op'"
          by (auto simp: walk_reached_def)
      qed
      ultimately have f': "walk_frame ctx st op ?s'"
        using rs(2) walk_grows_trans [OF g01 g'] by (simp add: walk_frame_def)
      have "wallet_done ctx ?s' pwallet op"
        unfolding wallet_done_def
        using rs(4) [OF Some e1] c1 Some walk_covered_grows [OF _ g'] by auto
      with f' walk_grows_trans [OF g1 g'] r Some show ?thesis
        by simp
    qed
    have "\<exists>st'. for_each
        (\<lambda>pwallet st.
           case map_of (mapRecords pwallet) (op_hash op) of
             None \<Rightarrow> Some st
           | Some rtx \<Rightarrow>
               Option.bind
                 (if input_type_of rtx \<noteq> OUTPUT_STANDARD
                  then for_each
                         (\<lambda>op_in st. Option.bind
                            (traceFrozenPrevout ctx op_in (op_hash op) st)
                            (\<lambda>st. Some (push_input (op_hash op) op_in st)))
                         (vin rtx) (enter_traced_tx pwallet rtx (op_hash op) st)
                  else Some (enter_traced_tx pwallet rtx (op_hash op) st))
                 (\<lambda>st. Some (record_prevout pwallet rtx op txid_spentby st)))
        (GetWallets ctx) st = Some st' \<and>
        (walk_frame ctx st op st' \<and> (\<forall>pwallet\<in>set (GetWallets ctx). wallet_done ctx st' pwallet op))"
    proof (rule for_each_total [where I = "\<lambda>seen s. walk_frame ctx st op s \<and>
              (\<forall>pwallet\<in>set seen. wallet_done ctx s pwallet op)"])
      show "walk_frame ctx st op st \<and> (\<forall>pwallet\<in>set []. wallet_done ctx st pwallet op)"
        using bn by (simp add: walk_frame_def walk_grows_refl walk_reached_refl)
    next
      fix seen pwallet s
      assume inv: "walk_frame ctx st op s \<and> (\<forall>pwallet\<in>set seen. wallet_done ctx s pwallet op)"
        and w: "pwallet \<in> set (GetWallets ctx)"
      from wallet [OF w, of s] inv obtain s' where
        b: "(case map_of (mapRecords pwallet) (op_hash op) of
             None \<Rightarrow> Some s
           | Some rtx \<Rightarrow>
               Option.bind
                 (if input_type_of rtx \<noteq> OUTPUT_STANDARD
                  then for_each
                         (\<lambda>op_in st. Option.bind
                            (traceFrozenPrevout ctx op_in (op_hash op) st)
                            (\<lambda>st. Some (push_input (op_hash op) op_in st)))
                         (vin rtx) (enter_traced_tx pwallet rtx (op_hash op) s)
                  else Some (enter_traced_tx pwallet rtx (op_hash op) s))
                 (\<lambda>st. Some (record_prevout pwallet rtx op txid_spentby st))) = Some s'"
        and f': "walk_frame ctx st op s'" and g: "walk_grows s s'" and d: "wallet_done ctx s' pwallet op"
        by blast
      from inv have "\<forall>y\<in>set seen. wallet_done ctx s' y op"
        using wallet_done_grows [OF _ g] by blast
      with b f' d show "\<exists>s'. (case map_of (mapRecords pwallet) (op_hash op) of
             None \<Rightarrow> Some s
           | Some rtx \<Rightarrow>
               Option.bind
                 (if input_type_of rtx \<noteq> OUTPUT_STANDARD
                  then for_each
                         (\<lambda>op_in st. Option.bind
                            (traceFrozenPrevout ctx op_in (op_hash op) st)
                            (\<lambda>st. Some (push_input (op_hash op) op_in st)))
                         (vin rtx) (enter_traced_tx pwallet rtx (op_hash op) s)
                  else Some (enter_traced_tx pwallet rtx (op_hash op) s))
                 (\<lambda>st. Some (record_prevout pwallet rtx op txid_spentby st))) = Some s' \<and>
           (walk_frame ctx st op s' \<and> (\<forall>pwallet\<in>set (seen @ [pwallet]). wallet_done ctx s' pwallet op))"
        by auto
    qed
    then obtain st' where
      run: "traceFrozenPrevout ctx op txid_spentby st = Some st'"
      and f: "walk_frame ctx st op st'"
      and d: "\<forall>pwallet\<in>set (GetWallets ctx). wallet_done ctx st' pwallet op"
      unfolding traceFrozenPrevout.simps [of ctx op txid_spentby st] using False by auto
    have cov: "walk_covered ctx st' op"
      unfolding walk_covered_def walk_reports_def
    proof (intro allI impI)
      fix op'
      assume "(input_edge ctx)\<^sup>*\<^sup>* op op'"
      then show "\<forall>pwallet\<in>set (GetWallets ctx).
          wallet_reports ctx (set (warnings st')) (already_entered st') (already_traced st') pwallet op'"
      proof (cases rule: converse_rtranclpE)
        case base
        with d show ?thesis by (simp add: wallet_done_def)
      next
        case (step y)
        from step(1) obtain pwallet rtx where "pwallet \<in> set (GetWallets ctx)"
          "map_of (mapRecords pwallet) (op_hash op) = Some rtx" "input_type_of rtx \<noteq> OUTPUT_STANDARD"
          "y \<in> set (vin rtx)"
          by (auto simp: input_edge_def)
        with d have "walk_covered ctx st' y"
          unfolding wallet_done_def by blast
        with step(2) show ?thesis
          by (simp add: walk_covered_def walk_reports_def)
      qed
    qed
    with f have "walk_step ctx st st'"
      by (auto simp: walk_step_def walk_frame_def)
    moreover from f have "walk_reached ctx op st st'"
      by (simp add: walk_frame_def)
    ultimately show ?thesis using run cov by simp
  qed
qed

lemma mark_top_level_other:
  "op' \<noteq> op \<Longrightarrow> output_of_trace (mark_top_level forced op st) op' = output_of_trace st op'"
proof -
  assume ne: "op' \<noteq> op"
  then have "op_hash op' = op_hash op \<Longrightarrow> sint (op_n op') \<noteq> sint (op_n op)"
    by (cases op, cases op') (auto dest: sint_32_inj)
  then show ?thesis
    by (simp add: mark_top_level_def Let_def output_of_trace_def m_outputs_set_traced_tx)
qed

lemma mark_top_level_same:
  "output_of_trace (mark_top_level forced op st) op =
     (if op \<in> set forced
      then Some ((case output_of_trace st op of None \<Rightarrow> TracedOutput_init | Some o' \<Rightarrow> o')\<lparr>m_forced_include := True\<rparr>)
      else output_of_trace st op)"
  by (simp add: mark_top_level_def Let_def output_of_trace_def m_outputs_set_traced_tx)

lemma mark_top_level_step:
  shows "walk_grows st (mark_top_level forced op st)"
    and "blinds_null ctx st \<Longrightarrow> blinds_null ctx (mark_top_level forced op st)"
    and "already_traced (mark_top_level forced op st) op' \<Longrightarrow> already_traced st op' \<or> op' = op"
proof -
  show "walk_grows st (mark_top_level forced op st)"
    unfolding walk_grows_def already_traced_output
  proof (intro conjI allI impI)
    fix op' assume "output_of_trace st op' \<noteq> None"
    then show "output_of_trace (mark_top_level forced op st) op' \<noteq> None"
      by (cases "op' = op") (simp_all add: mark_top_level_other mark_top_level_same)
  qed (simp_all add: already_entered_mark_top_level)
  show "blinds_null ctx (mark_top_level forced op st)" if bn: "blinds_null ctx st"
    unfolding blinds_null_def
  proof (intro allI impI)
    fix op' o'
    assume o: "output_of_trace (mark_top_level forced op st) op' = Some o'" and b: "m_blinding_factor o' \<noteq> 0"
    show "blind_known ctx op'"
    proof (cases "op' = op")
      case False
      with o b bn show ?thesis by (simp add: mark_top_level_other blinds_null_def)
    next
      case True
      with o b bn show ?thesis
        by (auto simp: mark_top_level_same blinds_null_def TracedOutput_init_def
            split: if_splits option.splits)
    qed
  qed
  show "already_traced st op' \<or> op' = op" if "already_traced (mark_top_level forced op st) op'"
    using that by (cases "op' = op") (simp_all add: already_traced_output mark_top_level_other)
qed

lemma trace_top_level_covers:
  assumes ranked: "inputs_ranked rank ctx"
  shows "\<exists>st. trace_top_level ctx s = Some st \<and> blinds_null ctx st \<and>
           set (search_warnings s) \<subseteq> set (warnings st) \<and>
           (\<forall>op\<in>set (top_level s). walk_covered ctx st op) \<and>
           (\<forall>op'. already_traced st op' \<longrightarrow> (\<exists>op\<in>set (top_level s). (input_edge ctx)\<^sup>*\<^sup>* op op'))"
proof -
  let ?st0 = "\<lparr>traced_txs = Map.empty, warnings = search_warnings s\<rparr>"
  let ?I = "\<lambda>seen st. blinds_null ctx st \<and> walk_grows ?st0 st \<and>
              (\<forall>op'. already_traced st op' \<longrightarrow> walk_covered ctx st op') \<and>
              (\<forall>op\<in>set seen. walk_covered ctx st op) \<and>
              (\<forall>op'. already_traced st op' \<longrightarrow> (\<exists>op\<in>set seen. (input_edge ctx)\<^sup>*\<^sup>* op op'))"
  have "\<exists>st. trace_top_level ctx s = Some st \<and> ?I (top_level s) st"
    unfolding trace_top_level_def
  proof (rule for_each_total [where I = ?I])
    show "?I [] ?st0"
      by (simp add: blinds_null_def output_of_trace_def traced_tx_def TracedTx_init_def
          already_traced_def walk_grows_refl)
  next
    fix seen op_top st
    assume inv: "?I seen st" and "op_top \<in> set (top_level s)"
    from inv have bn: "blinds_null ctx st" and g0: "walk_grows ?st0 st"
      and fl: "\<And>op'. already_traced st op' \<Longrightarrow> walk_covered ctx st op'"
      and sn: "\<forall>op\<in>set seen. walk_covered ctx st op"
      and rc: "\<And>op'. already_traced st op' \<Longrightarrow> \<exists>op\<in>set seen. (input_edge ctx)\<^sup>*\<^sup>* op op'"
      by simp_all
    from traceFrozenPrevout_covers [OF ranked bn, of op_top 0] fl obtain s1 where
      t: "traceFrozenPrevout ctx op_top 0 st = Some s1" and ws: "walk_step ctx st s1"
      and c: "walk_covered ctx s1 op_top" and re: "walk_reached ctx op_top st s1"
      by blast
    let ?s' = "mark_top_level (set_forced s) op_top s1"
    from ws have g1: "walk_grows st s1" and bn1: "blinds_null ctx s1"
      by (simp_all add: walk_step_def)
    note mk = mark_top_level_step [where st = s1 and forced = "set_forced s" and op = op_top]
    have g': "walk_grows s1 ?s'" by (rule mk(1))
    have "walk_covered ctx ?s' op'" if a: "already_traced ?s' op'" for op'
    proof -
      from mk(3) [OF a] have "already_traced s1 op' \<or> op' = op_top" .
      moreover have "walk_covered ctx s1 op'" if "already_traced s1 op'"
      proof -
        from ws that have "already_traced st op' \<or> walk_covered ctx s1 op'"
          by (simp add: walk_step_def)
        then show ?thesis
          using fl walk_covered_grows [OF _ g1] by blast
      qed
      ultimately have "walk_covered ctx s1 op'"
        using c by blast
      then show ?thesis by (rule walk_covered_grows [OF _ g'])
    qed
    moreover have "\<forall>op\<in>set (seen @ [op_top]). walk_covered ctx ?s' op"
      using sn c walk_covered_grows [OF walk_covered_grows [OF _ g1] g'] walk_covered_grows [OF _ g']
      by auto
    moreover have "walk_grows ?st0 ?s'"
      using g0 g1 g' by (blast intro: walk_grows_trans)
    moreover have "\<exists>op\<in>set (seen @ [op_top]). (input_edge ctx)\<^sup>*\<^sup>* op op'"
      if a: "already_traced ?s' op'" for op'
    proof -
      from mk(3) [OF a] have "already_traced s1 op' \<or> op' = op_top" .
      with re have "already_traced st op' \<or> (input_edge ctx)\<^sup>*\<^sup>* op_top op'"
        by (auto simp: walk_reached_def)
      then show ?thesis
      proof
        assume "already_traced st op'"
        from rc [OF this] show ?thesis by auto
      next
        assume "(input_edge ctx)\<^sup>*\<^sup>* op_top op'"
        then show ?thesis by auto
      qed
    qed
    ultimately show "\<exists>s'. Option.bind (traceFrozenPrevout ctx op_top 0 st)
               (\<lambda>st. Some (mark_top_level (set_forced s) op_top st)) = Some s' \<and> ?I (seen @ [op_top]) s'"
      using t mk(2) [OF bn1] by simp
  qed
  then show ?thesis
    by (auto simp: walk_grows_def)
qed

lemma sint_ucast_16_32: "sint (ucast (x :: 16 word) :: 32 word) = uint x"
proof -
  have u: "uint (ucast x :: 32 word) = uint x"
    by (rule uint_up_ucast) (simp add: is_up)
  have "uint x < 2 ^ 16"
    using uint_bounded [of x] by simp
  then have hi: "uint x < 2 ^ 31"
    by simp
  have lo: "- (2 ^ 31) \<le> uint x"
    by (rule order_trans [OF _ uint_ge_0]) simp
  from lo hi have "signed_take_bit 31 (uint x) = uint x"
    by (rule signed_take_bit_int_eq_self)
  then show ?thesis
    by (simp add: sint_uint u)
qed

lemma filled_from_mono: "filled_from ctx W op \<Longrightarrow> W \<subseteq> W' \<Longrightarrow> filled_from ctx W' op"
  unfolding filled_from_def by (elim bexE exE conjE) (intro bexI exI conjI; blast)

lemma fill_output_other:
  "op \<noteq> (txid, ucast (out_n r)) \<Longrightarrow>
   output_of_trace (fill_output pwallet stx txid r st) op = output_of_trace st op"
proof -
  assume ne: "op \<noteq> (txid, ucast (out_n r))"
  then have "op_hash op = txid \<Longrightarrow> sint (op_n op) \<noteq> uint (out_n r)"
    by (cases op) (auto simp: sint_ucast_16_32 [symmetric] dest: sint_32_inj)
  then show ?thesis
    by (simp add: fill_output_def Let_def output_of_trace_def m_outputs_set_traced_tx)
qed

lemma fill_output_same:
  assumes "nType r = OUTPUT_RINGCT \<or> nType r = OUTPUT_CT" and "bit (nFlags r) ORF_OWNED"
  shows "output_of_trace (fill_output pwallet stx txid r st) (txid, ucast (out_n r)) \<noteq> None"
  using assms
  by (auto simp: fill_output_def Let_def output_of_trace_def m_outputs_set_traced_tx sint_ucast_16_32)

lemma fill_output_keeps:
  "output_of_trace st op \<noteq> None \<Longrightarrow> output_of_trace (fill_output pwallet stx txid r st) op \<noteq> None"
proof (cases "op = (txid, ucast (out_n r))")
  case False
  assume "output_of_trace st op \<noteq> None"
  with False show ?thesis by (simp add: fill_output_other)
next
  case True
  assume "output_of_trace st op \<noteq> None"
  with True show ?thesis
    by (simp add: fill_output_def Let_def output_of_trace_def sint_ucast_16_32)
qed

lemma fill_output_entered:
  "already_entered st h \<Longrightarrow> already_entered (fill_output pwallet stx txid r st) h"
  by (simp add: already_entered_def fill_output_def Let_def set_traced_tx_def push_warning_def)

lemma fill_output_grows: "walk_grows st (fill_output pwallet stx txid r st)"
  using fill_output_keeps set_mono_prefix [OF warnings_fill_output [of st pwallet stx txid r]]
  by (simp add: walk_grows_def already_traced_output fill_output_entered)

lemma fill_output_traced:
  "traced_txs st txid \<noteq> None \<Longrightarrow>
   (traced_txs (fill_output pwallet stx txid r st) h = None) = (traced_txs st h = None)"
  by (simp add: fill_output_def Let_def set_traced_tx_def push_warning_def)

lemma fill_output_new:
  assumes "output_of_trace (fill_output pwallet stx txid r st) op \<noteq> None"
    and "output_of_trace st op = None"
  shows "op = (txid, ucast (out_n r)) \<and>
         (nType r = OUTPUT_RINGCT \<or> nType r = OUTPUT_CT) \<and> bit (nFlags r) ORF_OWNED \<and>
         (nType r = OUTPUT_RINGCT \<and>
          readRCTOutputLink pwallet (txout_pk (tx_vpout stx (unat (out_n r)))) = None \<longrightarrow>
            strprintf ''ReadRCTOutputLink failed %s %d'' [ArgHash txid, ArgInt (uint (out_n r))]
              \<in> set (warnings (fill_output pwallet stx txid r st))) \<and>
         (GetBlind stx (uint (out_n r)) = None \<longrightarrow>
            strprintf ''GetBlind failed %s %d'' [ArgHash txid, ArgInt (uint (out_n r))]
              \<in> set (warnings (fill_output pwallet stx txid r st)))"
proof -
  have op: "op = (txid, ucast (out_n r))"
  proof (rule ccontr)
    assume "op \<noteq> (txid, ucast (out_n r))"
    from fill_output_other [OF this, of pwallet stx st] assms show False by simp
  qed
  with assms(2) have absent: "m_outputs (traced_tx st txid) (uint (out_n r)) = None"
    by (simp add: output_of_trace_def sint_ucast_16_32)
  have ty: "(nType r = OUTPUT_RINGCT \<or> nType r = OUTPUT_CT) \<and> bit (nFlags r) ORF_OWNED"
  proof (rule ccontr)
    assume "\<not> ?thesis"
    then have "fill_output pwallet stx txid r st = st"
      by (auto simp: fill_output_def)
    with assms show False by simp
  qed
  with op absent show ?thesis
    using fill_output_no_link [of r st txid pwallet stx] fill_output_no_blind [of r st txid stx pwallet]
    by auto
qed

lemma fill_inv_output:
  assumes inv: "fill_inv ctx st s" and w: "pwallet \<in> set (GetWallets ctx)"
    and it: "it \<in> set (mapRecords pwallet)" and r: "r \<in> set (vout (snd it))"
    and stx: "ReadStoredTx pwallet (fst it) = Some stx" and tr: "traced_txs s (fst it) \<noteq> None"
  shows "fill_inv ctx st (fill_output pwallet stx (fst it) r s)"
proof -
  let ?s' = "fill_output pwallet stx (fst it) r s"
  have g: "walk_grows s ?s'" by (rule fill_output_grows)
  from inv have g0: "walk_grows st s" by (simp add: fill_inv_def)
  have sub: "set (warnings s) \<subseteq> set (warnings ?s')"
    using g by (simp add: walk_grows_def)
  have "already_traced st op \<or> filled_from ctx (set (warnings ?s')) op" if a: "already_traced ?s' op" for op
  proof (cases "already_traced s op")
    case True
    with inv have "already_traced st op \<or> filled_from ctx (set (warnings s)) op"
      by (simp add: fill_inv_def)
    then show ?thesis
      using filled_from_mono [OF _ sub] by blast
  next
    case False
    from fill_output_new [where pwallet = pwallet and stx = stx and txid = "fst it" and r = r and st = s and op = op] a False
    have "filled_from ctx (set (warnings ?s')) op"
      unfolding filled_from_def already_traced_output
      by (intro bexI [OF _ w] bexI [OF _ it] bexI [OF _ r] exI [of _ stx]) (simp add: stx)
    then show ?thesis ..
  qed
  moreover from inv tr have "\<forall>h. (traced_txs ?s' h = None) = (traced_txs st h = None)"
    by (simp add: fill_inv_def fill_output_traced)
  ultimately show ?thesis
    using walk_grows_trans [OF g0 g] by (simp add: fill_inv_def)
qed

lemma fold_grows:
  assumes "\<And>x s. walk_grows s (f x s)"
  shows "walk_grows s (fold f xs s)"
proof (induction xs arbitrary: s)
  case Nil
  show ?case by (simp add: walk_grows_refl)
next
  case (Cons x xs)
  from walk_grows_trans [OF assms Cons.IH] show ?case by simp
qed

lemma already_entered_push_warning [simp]: "already_entered (push_warning m st) h = already_entered st h"
  by (simp add: already_entered_def push_warning_def)

lemma push_warning_grows: "walk_grows st (push_warning m st)"
  by (auto simp: walk_grows_def already_traced_output)

lemma fill_record_grows: "walk_grows st (fill_record pwallet it st)"
  by (auto simp: fill_record_def push_warning_grows walk_grows_refl
      intro!: fold_grows fill_output_grows split: option.split)

lemma fill_inv_record:
  assumes inv: "fill_inv ctx st s" and w: "pwallet \<in> set (GetWallets ctx)"
    and it: "it \<in> set (mapRecords pwallet)"
  shows "fill_inv ctx st (fill_record pwallet it s)"
proof (cases "traced_txs s (fst it)")
  case None
  with inv show ?thesis by (simp add: fill_record_def)
next
  case (Some t)
  show ?thesis
  proof (cases "ReadStoredTx pwallet (fst it)")
    case None
    have "fill_inv ctx st (push_warning m s)" for m
    proof -
      have f: "filled_from ctx (set (warnings s)) op \<Longrightarrow> filled_from ctx (set (warnings (push_warning m s))) op" for op
        by (rule filled_from_mono) auto
      have "already_traced st op \<or> filled_from ctx (set (warnings (push_warning m s))) op"
        if "already_traced (push_warning m s) op" for op
      proof -
        from that have "already_traced s op" by (simp add: already_traced_output)
        with inv have "already_traced st op \<or> filled_from ctx (set (warnings s)) op"
          by (simp add: fill_inv_def)
        with f show ?thesis by blast
      qed
      moreover from inv have "walk_grows st (push_warning m s)"
        using walk_grows_trans [OF _ push_warning_grows [of s m], of st] by (simp add: fill_inv_def)
      moreover from inv have "\<forall>h. (traced_txs (push_warning m s) h = None) = (traced_txs st h = None)"
        by (simp add: fill_inv_def push_warning_def)
      ultimately show ?thesis by (simp add: fill_inv_def)
    qed
    with None Some show ?thesis by (simp add: fill_record_def)
  next
    case stx: (Some stx)
    have "fill_inv ctx st (fold (fill_output pwallet stx (fst it)) (vout (snd it)) s)"
    proof (rule fold_invariant [where P = "\<lambda>s. fill_inv ctx st s \<and> traced_txs s (fst it) \<noteq> None", THEN conjunct1])
      fix r and s1 :: trace_state
      assume r: "r \<in> set (vout (snd it))" and i: "fill_inv ctx st s1 \<and> traced_txs s1 (fst it) \<noteq> None"
      with fill_inv_output [OF _ w it r stx, where st = st and s = s1]
      show "fill_inv ctx st (fill_output pwallet stx (fst it) r s1) \<and>
            traced_txs (fill_output pwallet stx (fst it) r s1) (fst it) \<noteq> None"
        by (simp add: fill_output_traced)
    next
      from inv Some show "fill_inv ctx st s \<and> traced_txs s (fst it) \<noteq> None" by simp
    qed
    with Some stx show ?thesis by (simp add: fill_record_def)
  qed
qed

lemma fill_inv_known_outputs: "fill_inv ctx st (fill_known_outputs ctx st)"
  unfolding fill_known_outputs_def
proof (rule fold_invariant [where P = "fill_inv ctx st"])
  fix pwallet and s :: trace_state
  assume w: "pwallet \<in> set (GetWallets ctx)" and i: "fill_inv ctx st s"
  show "fill_inv ctx st (fold (fill_record pwallet) (mapRecords pwallet) s)"
    by (rule fold_invariant [where P = "fill_inv ctx st"]) (simp_all add: fill_inv_record w i)
next
  show "fill_inv ctx st st"
    by (simp add: fill_inv_def walk_grows_refl)
qed

lemma fold_reaches_under:
  assumes inv: "\<And>y s. y \<in> set xs \<Longrightarrow> P s \<Longrightarrow> P (f y s)"
    and keep: "\<And>y s. Q s \<Longrightarrow> Q (f y s)"
    and hit: "\<And>s. P s \<Longrightarrow> Q (f x s)"
    and x: "x \<in> set xs" and p: "P s"
  shows "Q (fold f xs s)"
  using x p inv
proof (induction xs arbitrary: s)
  case Nil
  then show ?case by simp
next
  case (Cons y ys)
  show ?case
  proof (cases "x = y")
    case True
    have "Q (fold f ys (f y s))"
      by (rule fold_invariant [where P = Q]) (simp_all add: keep hit [OF Cons.prems(2)] True [symmetric])
    then show ?thesis by simp
  next
    case False
    with Cons.prems have "x \<in> set ys" by simp
    moreover have "P (f y s)" using Cons.prems by simp
    ultimately have "Q (fold f ys (f y s))"
      using Cons.prems(3) by (intro Cons.IH) simp_all
    then show ?thesis by simp
  qed
qed

lemma fill_known_outputs_record:
  assumes w: "pwallet \<in> set (GetWallets ctx)" and it: "it \<in> set (mapRecords pwallet)"
    and tr: "traced_txs st (fst it) \<noteq> None"
  shows "record_filled (set (warnings (fill_known_outputs ctx st)))
           (already_traced (fill_known_outputs ctx st)) pwallet it"
proof -
  have wallet_grows: "walk_grows s (fold (fill_record y) (mapRecords y) s)" for y s
    by (rule fold_grows) (rule fill_record_grows)
  have inv_wallet: "fill_inv ctx st (fold (fill_record y) (mapRecords y) s)"
    if "y \<in> set (GetWallets ctx)" "fill_inv ctx st s" for y s
    by (rule fold_invariant [where P = "fill_inv ctx st"]) (simp_all add: fill_inv_record that)
  have reach: "Q (fill_known_outputs ctx st)"
    if mono: "\<And>s s'. Q s \<Longrightarrow> walk_grows s s' \<Longrightarrow> Q s'"
      and hit: "\<And>s. fill_inv ctx st s \<Longrightarrow> Q (fill_record pwallet it s)" for Q
    unfolding fill_known_outputs_def
  proof (rule fold_reaches_under [where P = "fill_inv ctx st" and x = pwallet])
    fix s assume "fill_inv ctx st s"
    show "Q (fold (fill_record pwallet) (mapRecords pwallet) s)"
    proof (rule fold_reaches_under [where P = "fill_inv ctx st" and x = it])
      show "fill_inv ctx st s" by fact
    qed (simp_all add: fill_inv_record w it hit mono [OF _ fill_record_grows])
  next
    show "fill_inv ctx st st" by (simp add: fill_inv_def walk_grows_refl)
  qed (simp_all add: inv_wallet w mono [OF _ wallet_grows])
  show ?thesis
  proof (cases "ReadStoredTx pwallet (fst it)")
    case None
    have "strprintf ''ReadStoredTx failed %s'' [ArgHash (fst it)] \<in> set (warnings (fill_known_outputs ctx st))"
    proof (rule reach [where Q = "\<lambda>s. strprintf ''ReadStoredTx failed %s'' [ArgHash (fst it)] \<in> set (warnings s)"])
      fix s assume "fill_inv ctx st s"
      with tr have "traced_txs s (fst it) \<noteq> None" by (simp add: fill_inv_def)
      with None show "strprintf ''ReadStoredTx failed %s'' [ArgHash (fst it)] \<in> set (warnings (fill_record pwallet it s))"
        by (simp add: fill_record_no_stored_tx)
    qed (auto simp: walk_grows_def)
    with None show ?thesis by (simp add: record_filled_def)
  next
    case (Some stx)
    have "already_traced (fill_known_outputs ctx st) (fst it, ucast (out_n r))"
      if r: "r \<in> set (vout (snd it))" and ty: "nType r = OUTPUT_RINGCT \<or> nType r = OUTPUT_CT"
        and ow: "bit (nFlags r) ORF_OWNED" for r
    proof (rule reach [where Q = "\<lambda>s. already_traced s (fst it, ucast (out_n r))"])
      fix s assume "fill_inv ctx st s"
      with tr have "traced_txs s (fst it) \<noteq> None" by (simp add: fill_inv_def)
      then obtain t where t: "traced_txs s (fst it) = Some t" by auto
      have "already_traced (fold (fill_output pwallet stx (fst it)) (vout (snd it)) s) (fst it, ucast (out_n r))"
      proof (rule fold_reaches [where x = r])
        show "r \<in> set (vout (snd it))" by fact
      next
        fix s1 show "already_traced (fill_output pwallet stx (fst it) r s1) (fst it, ucast (out_n r))"
          using fill_output_same [OF ty ow] by (simp add: already_traced_output)
      next
        fix y s1 assume "already_traced s1 (fst it, ucast (out_n r))"
        then show "already_traced (fill_output pwallet stx (fst it) y s1) (fst it, ucast (out_n r))"
          using fill_output_grows [of s1 pwallet stx "fst it" y] by (simp add: walk_grows_def)
      qed
      with t Some show "already_traced (fill_record pwallet it s) (fst it, ucast (out_n r))"
        by (simp add: fill_record_def)
    qed (auto simp: walk_grows_def)
    with Some show ?thesis by (simp add: record_filled_def)
  qed
qed

lemma search_output_keeps:
  "set (search_warnings s) \<subseteq> set (search_warnings (search_output ctx min_value mx extra_txouts pwallet txid in_height r s)) \<and>
   set (top_level s) \<subseteq> set (top_level (search_output ctx min_value mx extra_txouts pwallet txid in_height r s))"
  by (auto simp: search_output_def Let_def split: option.split)

lemma search_output_hit:
  assumes "search_reads ctx min_value extra_txouts pwallet it r"
  shows "if nType r = OUTPUT_RINGCT \<and> read_anon_index pwallet (fst it) r = None
         then strprintf ''Failed to get anon index for %s.%d'' [ArgHash (fst it), ArgInt (uint (out_n r))]
                \<in> set (search_warnings (search_output ctx min_value mx extra_txouts pwallet (fst it)
                     (in_frozen_height ctx (snd it)) r s))
         else frozen_unspendable ctx mx pwallet (fst it) r \<or> (fst it, ucast (out_n r)) \<in> set extra_txouts \<longrightarrow>
              (fst it, ucast (out_n r)) \<in> set (top_level (search_output ctx min_value mx extra_txouts pwallet (fst it)
                     (in_frozen_height ctx (snd it)) r s))"
  using assms
  by (auto simp: search_output_def search_reads_def frozen_unspendable_def Let_def
      split: option.splits if_splits)

lemma search_frozen_reported:
  assumes w: "pwallet \<in> set (GetWallets ctx)" and it: "it \<in> set (mapRecords pwallet)"
    and r: "r \<in> set (vout (snd it))" and reads: "search_reads ctx min_value extra_txouts pwallet it r"
  shows "if nType r = OUTPUT_RINGCT \<and> read_anon_index pwallet (fst it) r = None
         then strprintf ''Failed to get anon index for %s.%d'' [ArgHash (fst it), ArgInt (uint (out_n r))]
                \<in> set (search_warnings (search_frozen ctx min_value mx extra_txouts))
         else frozen_unspendable ctx mx pwallet (fst it) r \<or> (fst it, ucast (out_n r)) \<in> set extra_txouts \<longrightarrow>
              (fst it, ucast (out_n r)) \<in> set (top_level (search_frozen ctx min_value mx extra_txouts))"
proof -
  let ?Q = "\<lambda>s :: trace_search. if nType r = OUTPUT_RINGCT \<and> read_anon_index pwallet (fst it) r = None
         then strprintf ''Failed to get anon index for %s.%d'' [ArgHash (fst it), ArgInt (uint (out_n r))]
                \<in> set (search_warnings s)
         else frozen_unspendable ctx mx pwallet (fst it) r \<or> (fst it, ucast (out_n r)) \<in> set extra_txouts \<longrightarrow>
              (fst it, ucast (out_n r)) \<in> set (top_level s)"
  have mono: "?Q s'" if "?Q s" "set (search_warnings s) \<subseteq> set (search_warnings s')"
    "set (top_level s) \<subseteq> set (top_level s')" for s s' :: trace_search
    using that by (auto split: if_splits)
  have keep_output: "?Q (search_output ctx min_value mx extra_txouts y txid h x s)" if "?Q s"
    for y txid h x and s :: trace_search
    by (rule mono [OF that]) (simp_all add: search_output_keeps)
  have keep_record: "?Q (search_record ctx min_value mx extra_txouts y x s)" if q: "?Q s"
    for y x and s :: trace_search
    unfolding search_record_def Let_def
  proof (rule fold_invariant [where P = ?Q])
    show "?Q (s\<lparr>num_searched := num_searched s + 1\<rparr>)"
      by (rule mono [OF q]) simp_all
  qed (erule keep_output)
  have keep_wallet: "?Q (fold (search_record ctx min_value mx extra_txouts y) (mapRecords y) s)" if "?Q s"
    for y and s :: trace_search
    by (rule fold_invariant [where P = ?Q]) (erule keep_record, rule that)
  have hit_record: "?Q (search_record ctx min_value mx extra_txouts pwallet it s)" for s :: trace_search
    unfolding search_record_def Let_def in_frozen_height_def [symmetric]
  proof (rule fold_reaches [where x = r and Q = ?Q])
    show "r \<in> set (vout (snd it))" by fact
  next
    fix s1 :: trace_search
    show "?Q (search_output ctx min_value mx extra_txouts pwallet (fst it) (in_frozen_height ctx (snd it)) r s1)"
      by (rule search_output_hit [OF reads])
  qed (erule keep_output)
  have hit_wallet: "?Q (fold (search_record ctx min_value mx extra_txouts pwallet) (mapRecords pwallet) s)"
    for s :: trace_search
  proof (rule fold_reaches [where x = it and Q = ?Q])
    show "it \<in> set (mapRecords pwallet)" by fact
  qed (erule keep_record, rule hit_record)
  show ?thesis
    unfolding search_frozen_def
  proof (rule fold_reaches [where x = pwallet and Q = ?Q])
    show "pwallet \<in> set (GetWallets ctx)" by fact
  qed (erule keep_wallet, rule hit_wallet)
qed

lemma result_entered_trace [simp]:
  "result_entered (trace_result_of ctx s st) = already_entered (fill_known_outputs ctx st)"
  by (rule ext) (simp add: result_entered_def trace_result_of_def Let_def already_entered_def)

lemma result_recorded_trace [simp]:
  "result_recorded (trace_result_of ctx s st) = already_traced (fill_known_outputs ctx st)"
  by (rule ext) (simp add: result_recorded_def trace_result_of_def Let_def already_traced_def)

lemma trace_result_of_simps [simp]:
  "res_warnings (trace_result_of ctx s st) = warnings (fill_known_outputs ctx st)"
  "res_top_level (trace_result_of ctx s st) = top_level s"
  "res_traced_txns (trace_result_of ctx s st) = traced_txs (fill_known_outputs ctx st)"
  by (simp_all add: trace_result_of_def Let_def)

lemma warned_lookups:
  "GetWallets warned_context = [warned_wallet]"
  "mapRecords warned_wallet = warned_records"
  "ReadStoredTx warned_wallet 1 = Some warned_stx"
  "ReadStoredTx warned_wallet 2 = None"
  "ReadStoredTx warned_wallet 3 = None"
  "ReadStoredTx warned_wallet 4 = Some warned_stx"
  "readRCTOutputLink warned_wallet pk = None"
  "GetBlind warned_stx i = None"
  by (simp_all add: warned_context_def frozen_context_def warned_wallet_def plain_wallet_def
      GetBlind_def warned_stx_def)

lemma blind_in_record_fields:
  "vin (blind_in_record height ins outs) = ins"
  "vout (blind_in_record height ins outs) = outs"
  "block_height (blind_in_record height ins outs) = height"
  by (simp_all add: blind_in_record_def)

lemma warned_search:
  "search_frozen warned_context min_frozen_blinded_value 20000 [] =
     \<lparr>top_level = [(4, 0), (4, 1)], set_forced = [], total_traced = 100000, num_traced = 2,
      num_searched = 4,
      search_warnings = [strprintf ''Failed to get anon index for %s.%d'' [ArgHash 1, ArgInt 0]]\<rparr>"
  by code_simp

lemma warned_ranked: "inputs_ranked unat warned_context"
  by (simp add: inputs_ranked_def warned_lookups warned_records_def blind_in_record_fields)

lemma warned_unlocked: "ensure_all_unlocked (GetWallets warned_context) = None"
  by (simp add: warned_lookups) (simp add: warned_wallet_def plain_wallet_def)

lemma warned_edges:
  "input_edge warned_context op op_in =
     (op_hash op = 4 \<and> (op_in = (1, 0) \<or> op_in = (2, 0) \<or> op_in = (3, 5)))"
  by (auto simp: input_edge_def warned_lookups warned_records_def input_type_blind_in
      blind_in_record_fields split: if_splits)

lemma warned_reach:
  assumes "(input_edge warned_context)\<^sup>*\<^sup>* a b" and "op_hash a = 4"
  shows "b = a \<or> b = (1, 0) \<or> b = (2, 0) \<or> b = (3, 5)"
  using assms by (induction rule: rtranclp_induct) (auto simp: warned_edges)

text \<open>
  C6. Once the extra outputs are read and the wallets are found unlocked,
  \<open>traceFrozenOutputs\<close> throws no error, whatever the stored transactions, the links of the
  anonymous outputs and the blinding factors are. When the records form no cycle (the
  inputs of every record come from transactions of a smaller rank) it returns its result,
  and a failure leaves a warning in that result and stops nothing:

  \<^item> in the search, an anonymous output whose index in the chain is unreadable (its stored
    transaction is missing, or the link of its public key) is named by a warning, and
    every other output the search reads that is not spendable is traced all the same;

  \<^item> the walk from every outpoint traced reports: at every outpoint reached through the
    inputs, in every wallet with a record of its transaction, the transaction is in the
    result; a missing stored transaction is named by a warning; else the output is in the
    result, an unreadable link is named by a warning and so is a blinding factor that is
    missing, unless a wallet knows one;

  \<^item> in the filling in, for every record of a transaction of the result, a missing stored
    transaction is named by a warning, and else every owned blinded or anonymous output of
    the record is in the result;

  \<^item> every output of the result is one the walk reaches from an outpoint traced, or is
    filled from a record, an unreadable link and a missing blinding factor named by
    warnings.

  In the example the search warns of the output \<open>(1, 0)\<close> and goes on to find the two
  outputs of transaction 4; the walk from \<open>(4, 0)\<close> warns of the link and of the blinding
  factor of \<open>(1, 0)\<close> and records it, warns of the stored transaction of 2, enters
  transaction 3, and records \<open>(4, 0)\<close>; the walk from \<open>(4, 1)\<close> comes after these and
  records \<open>(4, 1)\<close>; the filling in warns of the stored transaction of 3, which the walk
  did not read, and adds the output \<open>(1, 1)\<close>, with the two warnings of its link and of
  its blinding factor.
\<close>

theorem trace_failures_are_warnings:
  assumes unlocked: "ensure_all_unlocked (GetWallets ctx) = None"
    and parsed: "(case uv_extra_outputs of None \<Rightarrow> Inr [] | Some uvs \<Rightarrow> read_extra_outputs uvs []) =
                   Inr extra_txouts"
  shows "(\<forall>e. traceFrozenOutputs ctx min_value max_frozen_output_spendable uv_extra_outputs \<noteq> Some (Inl e)) \<and>
         (inputs_ranked rank ctx \<longrightarrow>
           (\<exists>res.
              traceFrozenOutputs ctx min_value max_frozen_output_spendable uv_extra_outputs = Some (Inr res) \<and>
              res_top_level res = top_level (search_frozen ctx min_value max_frozen_output_spendable extra_txouts) \<and>
              search_reported ctx min_value max_frozen_output_spendable extra_txouts res \<and>
              (\<forall>op\<in>set (res_top_level res).
                 walk_reports ctx (set (res_warnings res)) (result_entered res) (result_recorded res) op) \<and>
              (\<forall>pwallet\<in>set (GetWallets ctx). \<forall>it\<in>set (mapRecords pwallet).
                 result_entered res (fst it) \<longrightarrow>
                 record_filled (set (res_warnings res)) (result_recorded res) pwallet it) \<and>
              (\<forall>op. result_recorded res op \<longrightarrow>
                 (\<exists>op_top\<in>set (res_top_level res). (input_edge ctx)\<^sup>*\<^sup>* op_top op) \<or>
                 filled_from ctx (set (res_warnings res)) op)))"
proof (intro conjI allI impI)
  fix e
  show "traceFrozenOutputs ctx min_value max_frozen_output_spendable uv_extra_outputs \<noteq> Some (Inl e)"
    by (cases "trace_top_level ctx (search_frozen ctx min_value max_frozen_output_spendable extra_txouts)")
       (simp_all add: traceFrozenOutputs_def parsed unlocked)
next
  assume ranked: "inputs_ranked rank ctx"
  let ?s = "search_frozen ctx min_value max_frozen_output_spendable extra_txouts"
  from trace_top_level_covers [OF ranked, of ?s] obtain st where
    run: "trace_top_level ctx ?s = Some st"
    and sw: "set (search_warnings ?s) \<subseteq> set (warnings st)"
    and cov: "\<forall>op\<in>set (top_level ?s). walk_covered ctx st op"
    and reach: "\<forall>op'. already_traced st op' \<longrightarrow> (\<exists>op\<in>set (top_level ?s). (input_edge ctx)\<^sup>*\<^sup>* op op')"
    by blast
  let ?st' = "fill_known_outputs ctx st"
  let ?res = "trace_result_of ctx ?s st"
  have inv: "fill_inv ctx st ?st'" by (rule fill_inv_known_outputs)
  then have g: "walk_grows st ?st'" by (simp add: fill_inv_def)
  have res: "traceFrozenOutputs ctx min_value max_frozen_output_spendable uv_extra_outputs = Some (Inr ?res)"
    by (simp add: traceFrozenOutputs_def parsed unlocked run)
  have search: "search_reported ctx min_value max_frozen_output_spendable extra_txouts ?res"
    unfolding search_reported_def
  proof (intro ballI impI)
    fix pwallet it r
    assume "pwallet \<in> set (GetWallets ctx)" "it \<in> set (mapRecords pwallet)" "r \<in> set (vout (snd it))"
      "search_reads ctx min_value extra_txouts pwallet it r"
    from search_frozen_reported [OF this, of max_frozen_output_spendable] sw g
    show "if nType r = OUTPUT_RINGCT \<and> read_anon_index pwallet (fst it) r = None
         then strprintf ''Failed to get anon index for %s.%d'' [ArgHash (fst it), ArgInt (uint (out_n r))]
                \<in> set (res_warnings ?res)
         else frozen_unspendable ctx max_frozen_output_spendable pwallet (fst it) r \<or>
              (fst it, ucast (out_n r)) \<in> set extra_txouts \<longrightarrow>
              (fst it, ucast (out_n r)) \<in> set (res_top_level ?res)"
      by (auto simp: walk_grows_def split: if_splits)
  qed
  have walk: "\<forall>op\<in>set (res_top_level ?res). walk_reports ctx (set (res_warnings ?res)) (result_entered ?res) (result_recorded ?res) op"
    using cov walk_covered_grows [OF _ g] by (simp add: walk_covered_def)
  have fill: "\<forall>pwallet\<in>set (GetWallets ctx). \<forall>it\<in>set (mapRecords pwallet).
                 result_entered ?res (fst it) \<longrightarrow>
                 record_filled (set (res_warnings ?res)) (result_recorded ?res) pwallet it"
  proof (intro ballI impI)
    fix pwallet it
    assume w: "pwallet \<in> set (GetWallets ctx)" and it: "it \<in> set (mapRecords pwallet)"
      and "result_entered ?res (fst it)"
    with inv have "traced_txs st (fst it) \<noteq> None"
      by (simp add: fill_inv_def already_entered_def)
    from fill_known_outputs_record [OF w it this]
    show "record_filled (set (res_warnings ?res)) (result_recorded ?res) pwallet it"
      by simp
  qed
  have new: "\<forall>op. result_recorded ?res op \<longrightarrow>
      (\<exists>op_top\<in>set (res_top_level ?res). (input_edge ctx)\<^sup>*\<^sup>* op_top op) \<or>
      filled_from ctx (set (res_warnings ?res)) op"
  proof (intro allI impI)
    fix op assume "result_recorded ?res op"
    with inv have "already_traced st op \<or> filled_from ctx (set (res_warnings ?res)) op"
      by (simp add: fill_inv_def)
    with reach show "(\<exists>op_top\<in>set (res_top_level ?res). (input_edge ctx)\<^sup>*\<^sup>* op_top op) \<or>
      filled_from ctx (set (res_warnings ?res)) op"
      by auto
  qed
  have top: "res_top_level ?res = top_level ?s" by simp
  from res top search walk fill new
  show "\<exists>res.
              traceFrozenOutputs ctx min_value max_frozen_output_spendable uv_extra_outputs = Some (Inr res) \<and>
              res_top_level res = top_level (search_frozen ctx min_value max_frozen_output_spendable extra_txouts) \<and>
              search_reported ctx min_value max_frozen_output_spendable extra_txouts res \<and>
              (\<forall>op\<in>set (res_top_level res).
                 walk_reports ctx (set (res_warnings res)) (result_entered res) (result_recorded res) op) \<and>
              (\<forall>pwallet\<in>set (GetWallets ctx). \<forall>it\<in>set (mapRecords pwallet).
                 result_entered res (fst it) \<longrightarrow>
                 record_filled (set (res_warnings res)) (result_recorded res) pwallet it) \<and>
              (\<forall>op. result_recorded res op \<longrightarrow>
                 (\<exists>op_top\<in>set (res_top_level res). (input_edge ctx)\<^sup>*\<^sup>* op_top op) \<or>
                 filled_from ctx (set (res_warnings res)) op)"
    by blast
qed

theorem trace_failures_are_warnings_witness:
  "\<exists>res. traceFrozenOutputs warned_context min_frozen_blinded_value 20000 None = Some (Inr res) \<and>
     res_top_level res = [(4, 0), (4, 1)] \<and>
     strprintf ''Failed to get anon index for %s.%d'' [ArgHash 1, ArgInt 0] \<in> set (res_warnings res) \<and>
     strprintf ''ReadRCTOutputLink failed %s'' [ArgOutPoint (1, 0)] \<in> set (res_warnings res) \<and>
     strprintf ''GetBlind failed %s'' [ArgOutPoint (1, 0)] \<in> set (res_warnings res) \<and>
     strprintf ''ReadStoredTx failed %s'' [ArgHash 2] \<in> set (res_warnings res) \<and>
     strprintf ''GetBlind failed %s'' [ArgOutPoint (4, 0)] \<in> set (res_warnings res) \<and>
     strprintf ''GetBlind failed %s'' [ArgOutPoint (4, 1)] \<in> set (res_warnings res) \<and>
     result_recorded res (1, 0) \<and> result_recorded res (4, 0) \<and> result_recorded res (4, 1) \<and>
     result_entered res 3 \<and>
     strprintf ''ReadStoredTx failed %s'' [ArgHash 3] \<in> set (res_warnings res) \<and>
     result_recorded res (1, 1) \<and>
     strprintf ''ReadRCTOutputLink failed %s %d'' [ArgHash 1, ArgInt 1] \<in> set (res_warnings res) \<and>
     strprintf ''GetBlind failed %s %d'' [ArgHash 1, ArgInt 1] \<in> set (res_warnings res)"
proof -
  have parsed: "(case None of None \<Rightarrow> Inr [] | Some uvs \<Rightarrow> read_extra_outputs uvs []) = Inr []"
    by simp
  from trace_failures_are_warnings [OF warned_unlocked parsed, of min_frozen_blinded_value 20000 unat]
    warned_ranked
  obtain res where
    res: "traceFrozenOutputs warned_context min_frozen_blinded_value 20000 None = Some (Inr res)"
    and top: "res_top_level res = top_level (search_frozen warned_context min_frozen_blinded_value 20000 [])"
    and search: "search_reported warned_context min_frozen_blinded_value 20000 [] res"
    and walk: "\<forall>op\<in>set (res_top_level res).
        walk_reports warned_context (set (res_warnings res)) (result_entered res) (result_recorded res) op"
    and fill: "\<forall>pwallet\<in>set (GetWallets warned_context). \<forall>it\<in>set (mapRecords pwallet).
        result_entered res (fst it) \<longrightarrow>
        record_filled (set (res_warnings res)) (result_recorded res) pwallet it"
    and new: "\<forall>op. result_recorded res op \<longrightarrow>
        (\<exists>op_top\<in>set (res_top_level res). (input_edge warned_context)\<^sup>*\<^sup>* op_top op) \<or>
        filled_from warned_context (set (res_warnings res)) op"
    by blast
  let ?W = "set (res_warnings res)"
  note defs = warned_lookups warned_records_def blind_in_record_fields GetOutput_def
    owned_anon_output_def owned_blind_output_def blind_known_def ORF_OWNED_def
  from top have top': "res_top_level res = [(4, 0), (4, 1)]"
    by (simp add: warned_search)
  have reads: "search_reads warned_context min_frozen_blinded_value [] warned_wallet
      (1, blind_in_record 10 [] [owned_anon_output 0 50000, owned_anon_output 1 5000])
      (owned_anon_output 0 50000)"
    by code_simp
  have noidx: "read_anon_index warned_wallet 1 (owned_anon_output 0 50000) = None"
    by (simp add: read_anon_index_def defs warned_stx_def)
  from search [unfolded search_reported_def, rule_format, OF _ _ _ reads] noidx
  have s1: "strprintf ''Failed to get anon index for %s.%d'' [ArgHash 1, ArgInt 0] \<in> ?W"
    by (simp add: defs)
  from walk top' have w0: "walk_reports warned_context ?W (result_entered res) (result_recorded res) (4, 0)"
    and w1: "walk_reports warned_context ?W (result_entered res) (result_recorded res) (4, 1)"
    by simp_all
  have e: "(input_edge warned_context)\<^sup>*\<^sup>* (4, 0) (1, 0)" "(input_edge warned_context)\<^sup>*\<^sup>* (4, 0) (2, 0)"
    "(input_edge warned_context)\<^sup>*\<^sup>* (4, 0) (3, 5)"
    by (simp_all add: r_into_rtranclp warned_edges)
  from w0 [unfolded walk_reports_def, rule_format, OF e(1), of warned_wallet]
  have a1: "strprintf ''ReadRCTOutputLink failed %s'' [ArgOutPoint (1, 0)] \<in> ?W \<and>
     strprintf ''GetBlind failed %s'' [ArgOutPoint (1, 0)] \<in> ?W \<and> result_recorded res (1, 0) \<and>
     result_entered res 1"
    by (simp add: wallet_reports_def defs)
  from w0 [unfolded walk_reports_def, rule_format, OF e(2), of warned_wallet]
  have a2: "strprintf ''ReadStoredTx failed %s'' [ArgHash 2] \<in> ?W"
    by (simp add: wallet_reports_def defs)
  from w0 [unfolded walk_reports_def, rule_format, OF e(3), of warned_wallet]
  have a3: "result_entered res 3"
    by (simp add: wallet_reports_def defs)
  from w0 [unfolded walk_reports_def, rule_format, OF rtranclp.rtrancl_refl, of warned_wallet]
  have a4: "strprintf ''GetBlind failed %s'' [ArgOutPoint (4, 0)] \<in> ?W \<and> result_recorded res (4, 0)"
    by (simp add: wallet_reports_def defs)
  from w1 [unfolded walk_reports_def, rule_format, OF rtranclp.rtrancl_refl, of warned_wallet]
  have a5: "strprintf ''GetBlind failed %s'' [ArgOutPoint (4, 1)] \<in> ?W \<and> result_recorded res (4, 1)"
    by (simp add: wallet_reports_def defs)
  from fill [rule_format, of warned_wallet "(3, blind_in_record 10 [] [owned_blind_output 0 5000])"] a3
  have f3: "strprintf ''ReadStoredTx failed %s'' [ArgHash 3] \<in> ?W"
    by (simp add: record_filled_def defs)
  from fill [rule_format, of warned_wallet
      "(1, blind_in_record 10 [] [owned_anon_output 0 50000, owned_anon_output 1 5000])"] a1
  have f1: "result_recorded res (1, 1)"
    by (simp add: record_filled_def defs)
  have "\<not> (\<exists>op_top\<in>set (res_top_level res). (input_edge warned_context)\<^sup>*\<^sup>* op_top (1, 1))"
    using warned_reach [of "(4, 0)" "(1, 1)"] warned_reach [of "(4, 1)" "(1, 1)"] by (auto simp: top')
  with new f1 have "filled_from warned_context ?W (1, 1)"
    by blast
  then have n1: "strprintf ''ReadRCTOutputLink failed %s %d'' [ArgHash 1, ArgInt 1] \<in> ?W \<and>
     strprintf ''GetBlind failed %s %d'' [ArgHash 1, ArgInt 1] \<in> ?W"
    by (auto simp: filled_from_def defs)
  from res top' s1 a1 a2 a3 a4 a5 f3 f1 n1 show ?thesis
    by blast
qed

end
